theory Spec2Isabelle
  imports Complex_Main "HOL-Library.Monad_Syntax"
begin

section \<open>Numbers of the notebook\<close>

text \<open>
  The notebook \<^verbatim>\<open>cyclical_learning_rates.ipynb\<close> computes with Python floats and numpy
  float64 values, that is in binary64. A result is a \<^typ>\<open>real option\<close>: \<open>Some r\<close> is the
  finite value \<open>r\<close>, and \<open>None\<close> says that some operation on the way has no real value (a
  division by zero, which raises ZeroDivisionError on Python floats and gives inf or nan on
  numpy floats; the square root of a negative number, which numpy answers with nan; a power
  with no real value).

  The first three operations below are the exact ones. They serve where a statement does not
  turn on the last digit of a value: the signs and the guards of the link functions, the
  residual polynomial of gradient descent at the origin, the shape of the heavy-ball loops.
\<close>

definition fdiv :: "real \<Rightarrow> real \<Rightarrow> real option" where
  "fdiv a b = (if b = 0 then None else Some (a / b))"

definition fsqrt :: "real \<Rightarrow> real option" where
  "fsqrt a = (if a < 0 then None else Some (sqrt a))"

text \<open>The float power \<^verbatim>\<open>b ** e\<close>.\<close>

definition fpow :: "real \<Rightarrow> real \<Rightarrow> real option" where
  "fpow b e =
     (if 0 < b then Some (b powr e)
      else if b = 0 then (if 0 < e then Some 0 else if e = 0 then Some 1 else None)
      else if of_int \<lfloor>e\<rfloor> = e then Some (b powi \<lfloor>e\<rfloor>) else None)"

subsection \<open>Rounding\<close>

text \<open>
  A binary64 number has 53 significant bits, and every operation of IEEE 754 returns the
  exact result rounded to the nearest such number, a tie going to the one whose last bit is
  0. \<open>binade x\<close> is the exponent of \<open>x\<close>, \<open>round64 x\<close> the rounded value. The range of the
  exponent is not bounded here: overflow to inf and the subnormal numbers are left out, and
  the numbers of the notebook are far from both.
\<close>

definition binade :: "real \<Rightarrow> int" where
  "binade x = \<lfloor>log 2 \<bar>x\<bar>\<rfloor>"

definition round_half_even :: "real \<Rightarrow> int" where
  "round_half_even y =
     (let f = \<lfloor>y\<rfloor>; r = y - of_int f
      in if r < 1 / 2 then f else if 1 / 2 < r then f + 1 else if even f then f else f + 1)"

definition round64 :: "real \<Rightarrow> real" where
  "round64 x =
     (if x = 0 then 0
      else of_int (round_half_even (x / 2 powi (binade x - 52))) * 2 powi (binade x - 52))"

text \<open>
  The operations of the code with their rounding \<open>r\<close>: \<open>r = round64\<close> is the notebook, and
  \<open>r = (\<lambda>x. x)\<close> is exact arithmetic. \<open>rhalf\<close> is \<^verbatim>\<open>x / 2\<close>, and \<open>rsquare\<close> is \<^verbatim>\<open>x ** 2\<close>, the
  rounded product \<open>x * x\<close>: numpy squares an array by multiplying it with itself, and on a
  scalar it calls the power of the C library, which is taken to round correctly at the
  exponent 2.
\<close>

definition radd :: "(real \<Rightarrow> real) \<Rightarrow> real \<Rightarrow> real \<Rightarrow> real" where
  "radd r a b = r (a + b)"

definition rsub :: "(real \<Rightarrow> real) \<Rightarrow> real \<Rightarrow> real \<Rightarrow> real" where
  "rsub r a b = r (a - b)"

definition rmul :: "(real \<Rightarrow> real) \<Rightarrow> real \<Rightarrow> real \<Rightarrow> real" where
  "rmul r a b = r (a * b)"

definition rsquare :: "(real \<Rightarrow> real) \<Rightarrow> real \<Rightarrow> real" where
  "rsquare r a = r (a * a)"

definition rhalf :: "(real \<Rightarrow> real) \<Rightarrow> real \<Rightarrow> real" where
  "rhalf r a = r (a / 2)"

definition rdiv :: "(real \<Rightarrow> real) \<Rightarrow> real \<Rightarrow> real \<Rightarrow> real option" where
  "rdiv r a b = (if b = 0 then None else Some (r (a / b)))"

definition rsqrt :: "(real \<Rightarrow> real) \<Rightarrow> real \<Rightarrow> real option" where
  "rsqrt r a = (if a < 0 then None else Some (r (sqrt a)))"

text \<open>
  \<^verbatim>\<open>scipy.special.eval_chebyt\<close>, \<^verbatim>\<open>eval_chebyu\<close> and the power \<^verbatim>\<open>m ** (t / 2)\<close> with a
  fractional exponent belong to libraries whose code is not in the notebook and whose
  results IEEE 754 does not fix. The two residual polynomials that call them take them,
  with the rounding, as an argument.
\<close>

record arith =
  arith_round :: "real \<Rightarrow> real"
  arith_pow :: "real \<Rightarrow> real \<Rightarrow> real option"
  arith_chebyt :: "nat \<Rightarrow> real \<Rightarrow> real option"
  arith_chebyu :: "nat \<Rightarrow> real \<Rightarrow> real option"

text \<open>
  Exact arithmetic is the other instance: no rounding, the power of the reals, and for
  \<^verbatim>\<open>eval_chebyt\<close> and \<^verbatim>\<open>eval_chebyu\<close> at a degree that is a natural number the Chebyshev
  polynomials of the first and second kind, given by their three-term recurrence.
\<close>

fun eval_chebyt :: "nat \<Rightarrow> real \<Rightarrow> real" where
  "eval_chebyt 0 x = 1"
| "eval_chebyt (Suc 0) x = x"
| "eval_chebyt (Suc (Suc n)) x = 2 * x * eval_chebyt (Suc n) x - eval_chebyt n x"

fun eval_chebyu :: "nat \<Rightarrow> real \<Rightarrow> real" where
  "eval_chebyu 0 x = 1"
| "eval_chebyu (Suc 0) x = 2 * x"
| "eval_chebyu (Suc (Suc n)) x = 2 * x * eval_chebyu (Suc n) x - eval_chebyu n x"

definition exact_arith :: arith where
  "exact_arith =
     \<lparr>arith_round = (\<lambda>x. x),
      arith_pow = fpow,
      arith_chebyt = (\<lambda>n s. Some (eval_chebyt n s)),
      arith_chebyu = (\<lambda>n s. Some (eval_chebyu n s))\<rparr>"

text \<open>
  At degree 0 and exponent 0 the results of the library do not depend on how it rounds:
  \<^verbatim>\<open>eval_chebyt(0, s)\<close> and \<^verbatim>\<open>eval_chebyu(0, s)\<close> are \<open>1.0\<close>, and \<^verbatim>\<open>m ** 0.0\<close> is \<open>1.0\<close>.
  \<open>arith_degree_zero\<close> is the binary64 arithmetic of the notebook with the library known at
  these arguments only; at every other argument it gives no value.
\<close>

definition arith_degree_zero :: arith where
  "arith_degree_zero =
     \<lparr>arith_round = round64,
      arith_pow = (\<lambda>b e. if e = 0 then Some 1 else None),
      arith_chebyt = (\<lambda>n s. if n = 0 then Some 1 else None),
      arith_chebyu = (\<lambda>n s. if n = 0 then Some 1 else None)\<rparr>"


section \<open>The module's global variables\<close>

text \<open>
  The functions of the notebook are defined at the top level of the module and read the
  variables \<^verbatim>\<open>t\<close>, \<^verbatim>\<open>mu\<close> and \<^verbatim>\<open>L\<close> of the module when they are called. Every function of
  the model therefore takes the globals as its first argument and returns a value. No
  function of the notebook contains an assignment to a global; \<^verbatim>\<open>zeta\<close>, which assigns into
  an array, is given a second time below, on a store of arrays.
\<close>

record globals =
  t_glob :: int
  mu_glob :: real
  L_glob :: real


section \<open>Residual polynomials\<close>

text \<open>
  The functions take arrays and work on them element by element; the model gives them on one
  element \<open>x\<close>.
\<close>

definition poly_gd :: "globals \<Rightarrow> real \<Rightarrow> int \<Rightarrow> real option" where
  "poly_gd g x t = do {
     step_size \<leftarrow> fdiv 2 (mu_glob g + L_glob g);
     fpow (1 - step_size * x) (of_int t)
   }"

definition poly_polyak ::
  "arith \<Rightarrow> globals \<Rightarrow> real \<Rightarrow> real \<Rightarrow> real \<Rightarrow> nat \<Rightarrow> real option" where
  "poly_polyak A g x low high degree =
     (let r = arith_round A in do {
        sh \<leftarrow> rsqrt r high;
        sl \<leftarrow> rsqrt r low;
        q \<leftarrow> rdiv r (rsub r sh sl) (radd r sh sl);
        let m = rsquare r q;
        q2 \<leftarrow> rdiv r 2 (radd r sh sl);
        let h = rsquare r q2;
        sm \<leftarrow> rsqrt r m;
        s \<leftarrow> rdiv r (rsub r (radd r 1 m) (rmul r h x)) (rmul r 2 sm);
        cheb1_part \<leftarrow> arith_chebyt A degree s;
        cheb2_part \<leftarrow> arith_chebyu A degree s;
        p \<leftarrow> arith_pow A m (rhalf r (of_int (t_glob g)));
        c1 \<leftarrow> rdiv r (rmul r 2 m) (radd r 1 m);
        c2 \<leftarrow> rdiv r (rsub r 1 m) (radd r 1 m);
        Some (rmul r p (radd r (rmul r c1 cheb1_part) (rmul r c2 cheb2_part)))
      })"

definition poly_cyclical ::
  "arith \<Rightarrow> globals \<Rightarrow> real \<Rightarrow> real \<Rightarrow> real \<Rightarrow> real \<Rightarrow> real \<Rightarrow> nat \<Rightarrow> real option" where
  "poly_cyclical A g x mu1 L1 mu2 L2 degree =
     (let r = arith_round A in do {
        rho \<leftarrow> rdiv r (radd r L2 mu1) (rsub r L2 mu1);
        R \<leftarrow> rdiv r (rsub r mu2 L1) (rsub r L2 mu1);
        a \<leftarrow> rsqrt r (rsub r (rsquare r rho) (rsquare r R));
        b \<leftarrow> rsqrt r (rsub r (rsquare r rho) 1);
        c \<leftarrow> rsqrt r (rsub r 1 (rsquare r R));
        q \<leftarrow> rdiv r (rsub r a b) c;
        let m = rsquare r q;
        h0 \<leftarrow> rdiv r (radd r 1 m) L1;
        h1 \<leftarrow> rdiv r (radd r 1 m) mu2;
        let tmp = rmul r (rsub r (radd r 1 m) (rmul r h0 x)) (rsub r (radd r 1 m) (rmul r h1 x));
        root \<leftarrow> rsqrt r \<bar>tmp\<bar>;
        sm \<leftarrow> rsqrt r m;
        s \<leftarrow> rdiv r (rmul r root (sgn tmp)) (rmul r 2 sm);
        cheb1_part \<leftarrow> arith_chebyt A degree s;
        cheb2_part \<leftarrow> arith_chebyu A degree s;
        p \<leftarrow> arith_pow A m (rhalf r (of_int (t_glob g)));
        c1 \<leftarrow> rdiv r (rmul r 2 m) (radd r 1 m);
        c2 \<leftarrow> rdiv r (rsub r 1 m) (radd r 1 m);
        Some (rmul r p (radd r (rmul r c1 cheb1_part) (rmul r c2 cheb2_part)))
      })"


section \<open>Link functions and rates\<close>

text \<open>The link function of the constant step-size method (the first \<^verbatim>\<open>sigma\<close>).\<close>

definition sigma :: "globals \<Rightarrow> real \<Rightarrow> real \<Rightarrow> real \<Rightarrow> real option" where
  "sigma g x m h = do {
     sm \<leftarrow> fsqrt m;
     fdiv (1 + m - h * x) (2 * sm)
   }"

text \<open>
  \<^verbatim>\<open>zeta\<close> takes an array \<open>x\<close>, builds the mask \<^verbatim>\<open>idx\<close> of the entries where both factors are
  positive, and fills the entries of the mask with the square root and all others with the
  negated square root. \<open>zeta_entry\<close> is what one entry of the result holds.
\<close>

definition zeta_entry :: "globals \<Rightarrow> real \<Rightarrow> real \<Rightarrow> real \<Rightarrow> real \<Rightarrow> real option" where
  "zeta_entry g x m h0 h1 =
     (if 1 + m - h0 * x > 0 \<and> 1 + m - h1 * x > 0
      then do {
        a \<leftarrow> fdiv ((1 + m - h0 * x) * (1 + m - h1 * x)) (4 * m);
        fsqrt a
      }
      else do {
        a \<leftarrow> fdiv ((1 + m - h0 * x) * (1 + m - h1 * x)) (4 * m);
        r \<leftarrow> fsqrt a;
        Some (- r)
      })"

definition zeta :: "globals \<Rightarrow> real list \<Rightarrow> real \<Rightarrow> real \<Rightarrow> real \<Rightarrow> real option list" where
  "zeta g x m h0 h1 = map (\<lambda>xi. zeta_entry g xi m h0 h1) x"

text \<open>
  \<^verbatim>\<open>zeta\<close> is the one function of the notebook that assigns into an array. To follow its
  writes, the arrays that exist when it is called are a list, an array's position being its
  address. \<^verbatim>\<open>np.zeros_like\<close> makes a new array; \<^verbatim>\<open>x[idx]\<close> picks the entries of a mask and
  \<^verbatim>\<open>out[idx] = values\<close> writes one value into each entry of the mask, in order.
\<close>

type_synonym heap = "real option list list"

definition select_mask :: "bool list \<Rightarrow> 'a list \<Rightarrow> 'a list" where
  "select_mask idx xs = map snd (filter fst (zip idx xs))"

fun assign_mask :: "bool list \<Rightarrow> 'a list \<Rightarrow> 'a list \<Rightarrow> 'a list" where
  "assign_mask (True # idx) (y # out) (v # values) = v # assign_mask idx out values"
| "assign_mask (False # idx) (y # out) values = y # assign_mask idx out values"
| "assign_mask idx out values = out"

definition both_positive :: "real \<Rightarrow> real \<Rightarrow> real \<Rightarrow> real option \<Rightarrow> bool" where
  "both_positive m h0 h1 xo =
     (case xo of None \<Rightarrow> False | Some x \<Rightarrow> 1 + m - h0 * x > 0 \<and> 1 + m - h1 * x > 0)"

definition root_of_product :: "real \<Rightarrow> real \<Rightarrow> real \<Rightarrow> real option \<Rightarrow> real option" where
  "root_of_product m h0 h1 xo = do {
     x \<leftarrow> xo;
     a \<leftarrow> fdiv ((1 + m - h0 * x) * (1 + m - h1 * x)) (4 * m);
     fsqrt a
   }"

definition zeta_store ::
  "globals \<Rightarrow> heap \<Rightarrow> nat \<Rightarrow> real \<Rightarrow> real \<Rightarrow> real \<Rightarrow> nat \<times> heap" where
  "zeta_store g hp x_addr m h0 h1 =
     (let x = hp ! x_addr;
          idx = map (both_positive m h0 h1) x;
          out_addr = length hp;
          hp1 = hp @ [replicate (length x) (Some 0)];
          hp2 = hp1[out_addr :=
                  assign_mask idx (hp1 ! out_addr)
                    (map (root_of_product m h0 h1) (select_mask idx (hp1 ! x_addr)))];
          hp3 = hp2[out_addr :=
                  assign_mask (map Not idx) (hp2 ! out_addr)
                    (map (map_option uminus \<circ> root_of_product m h0 h1)
                       (select_mask (map Not idx) (hp2 ! x_addr)))]
      in (out_addr, hp3))"

definition sigma_r :: "globals \<Rightarrow> real \<Rightarrow> real \<Rightarrow> real \<Rightarrow> real option" where
  "sigma_r g x m r = do {
     h1 \<leftarrow> fdiv (1 + m) (0.5 * (L_glob g + mu_glob g) - r * 0.5 * (L_glob g - mu_glob g));
     h0 \<leftarrow> fdiv (1 + m) (0.5 * (L_glob g + mu_glob g) + r * 0.5 * (L_glob g - mu_glob g));
     v \<leftarrow> fdiv ((1 + m - h0 * x) * (1 + m - h1 * x)) (2 * m);
     Some \<bar>v - 1\<bar>
   }"

text \<open>The landscape cell defines \<^verbatim>\<open>sigma\<close> again, with two step sizes.\<close>

definition sigma_landscape :: "globals \<Rightarrow> real \<Rightarrow> real \<Rightarrow> real \<Rightarrow> real \<Rightarrow> real option" where
  "sigma_landscape g x m h0 h1 = do {
     sm \<leftarrow> fsqrt m;
     a \<leftarrow> fdiv (1 + m - h0 * x) (2 * sm);
     b \<leftarrow> fdiv (1 + m - h1 * x) (2 * sm);
     Some (2 * a * b - 1)
   }"

text \<open>
  \<^verbatim>\<open>cyclical_rate\<close> is called with a scalar \<open>kappa\<close> and an array \<open>R\<close> (it takes \<^verbatim>\<open>len(R)\<close>).
  \<open>r_polyak\<close> is computed from \<open>rho\<close> alone: it is an array only when \<open>rho\<close> was
  repeated, which happens when \<open>R\<close> has more than one entry. The two other rates are
  arrays as long as \<open>R\<close>. The function takes the rounding \<open>r\<close> of its operations.
\<close>

datatype ndarray = Scalar "real option" | Array "real option list"

definition r_polyak :: "(real \<Rightarrow> real) \<Rightarrow> real \<Rightarrow> real option" where
  "r_polyak r rho = do {
     b \<leftarrow> rsqrt r (rsub r (rsquare r rho) 1);
     Some (rsub r rho b)
   }"

definition r_cyclical :: "(real \<Rightarrow> real) \<Rightarrow> real \<Rightarrow> real \<Rightarrow> real option" where
  "r_cyclical r rho R = do {
     a \<leftarrow> rsqrt r (rsub r (rsquare r rho) (rsquare r R));
     b \<leftarrow> rsqrt r (rsub r (rsquare r rho) 1);
     c \<leftarrow> rsqrt r (rsub r 1 (rsquare r R));
     rdiv r (rsub r a b) c
   }"

definition r_approx :: "(real \<Rightarrow> real) \<Rightarrow> real \<Rightarrow> real \<Rightarrow> real option" where
  "r_approx r rho R = do {
     rp \<leftarrow> r_polyak r rho;
     c \<leftarrow> rsqrt r (rsub r 1 (rsquare r R));
     d \<leftarrow> rdiv r (rsub r 1 rp) c;
     Some (rsub r 1 d)
   }"

definition cyclical_rate ::
  "(real \<Rightarrow> real) \<Rightarrow> globals \<Rightarrow> real \<Rightarrow> real list \<Rightarrow> ndarray \<times> ndarray \<times> ndarray" where
  "cyclical_rate r g kappa R =
     (let rho = rdiv r (radd r 1 kappa) (rsub r 1 kappa);
          rp = rho \<bind> r_polyak r
      in (if length R > 1 then Array (replicate (length R) rp) else Scalar rp,
          Array (map (\<lambda>Ri. rho \<bind> (\<lambda>x. r_cyclical r x Ri)) R),
          Array (map (\<lambda>Ri. rho \<bind> (\<lambda>x. r_approx r x Ri)) R)))"

text \<open>Entry \<open>i\<close> of a result, a scalar standing for each of its entries (broadcasting).\<close>

fun entry :: "ndarray \<Rightarrow> nat \<Rightarrow> real option" where
  "entry (Scalar v) i = v"
| "entry (Array vs) i = (if i < length vs then vs ! i else None)"


section \<open>Inner spectral bounds\<close>

text \<open>
  The heavy-ball cell, the cyclical link-function cell and the robust-region cell derive the
  inner bounds from the outer bounds and the relative gap \<open>R\<close> by the same two formulas.
  \<open>L1_of\<close> and \<open>mu2_of\<close> are the formulas, as the loops below take them; \<open>inner_bounds\<close>
  is their evaluation, operation by operation, with the rounding \<open>r\<close>.
\<close>

definition L1_of :: "real \<Rightarrow> real \<Rightarrow> real \<Rightarrow> real" where
  "L1_of mu L R = mu + (1 - R) * (L - mu) / 2"

definition mu2_of :: "real \<Rightarrow> real \<Rightarrow> real \<Rightarrow> real" where
  "mu2_of mu L R = L - (1 - R) * (L - mu) / 2"

definition inner_bounds :: "(real \<Rightarrow> real) \<Rightarrow> real \<Rightarrow> real \<Rightarrow> real \<Rightarrow> real \<times> real" where
  "inner_bounds r mu L R =
     (let L1 = radd r mu (rhalf r (rmul r (rsub r 1 R) (rsub r L mu)));
          mu2 = rsub r L (rhalf r (rmul r (rsub r 1 R) (rsub r L mu)))
      in (L1, mu2))"

text \<open>The landscape cell places the inner bounds around the midpoint.\<close>

definition landscape_bounds :: "(real \<Rightarrow> real) \<Rightarrow> real \<Rightarrow> real \<Rightarrow> real \<Rightarrow> real \<times> real" where
  "landscape_bounds r mu1 L2 R =
     (let L1 = rsub r (rhalf r (radd r mu1 L2)) (rhalf r (rmul r (rsub r L2 mu1) R));
          mu2 = radd r (rhalf r (radd r mu1 L2)) (rhalf r (rmul r (rsub r L2 mu1) R))
      in (L1, mu2))"

text \<open>
  \<^verbatim>\<open>np.linspace(start, stop, num)\<close> belongs to numpy. It computes the step
  \<open>(stop - start) / (num - 1)\<close>, the entries \<open>k * step + start\<close> (or \<open>(k / (num - 1)) *
  (stop - start) + start\<close> when the step is 0), and sets the last entry to \<open>stop\<close>.
\<close>

definition linspace :: "(real \<Rightarrow> real) \<Rightarrow> real \<Rightarrow> real \<Rightarrow> nat \<Rightarrow> real list" where
  "linspace r start stop num =
     (if num = 0 then []
      else if num = 1 then [start]
      else let delta = rsub r stop start;
               step = r (delta / real (num - 1))
           in map (\<lambda>k. if k = num - 1 then stop
                        else if step = 0 then radd r (rmul r (r (real k / real (num - 1))) delta) start
                        else radd r (rmul r (real k) step) start)
                [0..<num])"

text \<open>
  The values of \<open>R\<close> that the four cells go through: the literal \<^verbatim>\<open>0.9\<close>, and the grids
  \<^verbatim>\<open>np.linspace(0, 0.5, 20)\<close>, \<^verbatim>\<open>np.linspace(0, 1.0, 30)\<close> and \<^verbatim>\<open>np.linspace(0, 0.75, 40)\<close>,
  each gone through forwards and backwards.
\<close>

definition R_heavy_ball :: "real list" where
  "R_heavy_ball = [round64 (9 / 10)]"

definition R_link_function :: "real list" where
  "R_link_function = linspace round64 0 (1 / 2) 20 @ linspace round64 (1 / 2) 0 20"

definition R_robust_region :: "real list" where
  "R_robust_region = (let all_R = linspace round64 0 1 30 in all_R @ rev all_R)"

definition R_landscape :: "real list" where
  "R_landscape = (let all_R = linspace round64 0 (3 / 4) 40 in all_R @ rev all_R)"

text \<open>
  The cell of the constant step-size link function runs \<^verbatim>\<open>L\<close> itself through
  \<^verbatim>\<open>np.linspace(1, 2, 20)\<close> and back, so the global \<open>L\<close> holds the last entry of the grid
  when the cell of the cyclical link function reads it.
\<close>

definition L_link_constant :: "real list" where
  "L_link_constant = linspace round64 1 2 20 @ linspace round64 2 1 20"

text \<open>
  The spectral-density cell takes the bounds from the eigenvalues of the MNIST Hessian.
  The data set is not part of the notebook, so the array \<open>eigs\<close> that
  \<^verbatim>\<open>np.linalg.eigvalsh\<close> returns is an argument here. Reading \<^verbatim>\<open>eigs[-2]\<close> raises IndexError
  on fewer than two eigenvalues. The result is \<open>(mu1, L1, mu2, L2)\<close>.
\<close>

definition mnist_bounds ::
  "(real \<Rightarrow> real) \<Rightarrow> real list \<Rightarrow> (real \<times> real \<times> real \<times> real) option" where
  "mnist_bounds r eigs =
     (if length eigs < 2 then None
      else let L2 = eigs ! (length eigs - 1);
               mu1 = Min (set eigs);
               L1 = eigs ! (length eigs - 2);
               mu2 = rsub r L2 (rsub r L1 mu1)
           in Some (mu1, L1, mu2, L2))"


section \<open>The heavy-ball loops\<close>

text \<open>
  The iterates are arrays of two numbers and the Hessian is a two by two array. The
  arithmetic of the loops is numpy's, which never raises; \<open>/\<close> and \<open>sqrt\<close> of HOL give
  its real value wherever the divisor is not zero and the radicand is not negative, which is
  the case for \<open>0 < mu < L\<close> and \<open>0 \<le> R < 1\<close>.
\<close>

type_synonym vec2 = "real \<times> real"
type_synonym mat2 = "vec2 \<times> vec2"

definition matvec :: "mat2 \<Rightarrow> vec2 \<Rightarrow> vec2" where
  "matvec H x = (fst (fst H) * fst x + snd (fst H) * snd x,
                 fst (snd H) * fst x + snd (snd H) * snd x)"

definition vadd :: "vec2 \<Rightarrow> vec2 \<Rightarrow> vec2" where
  "vadd a b = (fst a + fst b, snd a + snd b)"

definition vsub :: "vec2 \<Rightarrow> vec2 \<Rightarrow> vec2" where
  "vsub a b = (fst a - fst b, snd a - snd b)"

definition smul :: "real \<Rightarrow> vec2 \<Rightarrow> vec2" where
  "smul c a = (c * fst a, c * snd a)"

record loop_state =
  xt :: vec2
  xt_old :: vec2
  all_iterates :: "vec2 list"

definition init_state :: "vec2 \<Rightarrow> nat \<Rightarrow> loop_state" where
  "init_state x_init max_iter =
     \<lparr>xt = x_init, xt_old = x_init, all_iterates = replicate max_iter (0, 0)\<rparr>"

definition polyak_h :: "real \<Rightarrow> real \<Rightarrow> real" where
  "polyak_h L mu = (2 / (sqrt L + sqrt mu))\<^sup>2"

definition polyak_m :: "real \<Rightarrow> real \<Rightarrow> real" where
  "polyak_m L mu = ((sqrt L - sqrt mu) / (sqrt L + sqrt mu))\<^sup>2"

definition momentum_body :: "mat2 \<Rightarrow> real \<Rightarrow> real \<Rightarrow> real \<Rightarrow> real \<Rightarrow> loop_state \<Rightarrow> nat \<Rightarrow> loop_state" where
  "momentum_body H L mu h m s i =
     (let iterates = (all_iterates s)[i := xt s];
          grad_t = matvec H (xt s);
          tmp = xt s;
          new = (if i = 0 then vsub (xt s) (smul (2 / (L + mu)) grad_t)
                 else vadd (vsub (xt s) (smul h grad_t)) (smul m (vsub (xt s) (xt_old s))))
      in \<lparr>xt = new, xt_old = tmp, all_iterates = iterates\<rparr>)"

definition all_iterates_momentum :: "mat2 \<Rightarrow> vec2 \<Rightarrow> real \<Rightarrow> real \<Rightarrow> nat \<Rightarrow> vec2 list" where
  "all_iterates_momentum H x_init L mu max_iter =
     (let h = polyak_h L mu;
          m = polyak_m L mu
      in all_iterates (foldl (momentum_body H L mu h m) (init_state x_init max_iter) [0..<max_iter]))"

definition cyclical_m :: "real \<Rightarrow> real \<Rightarrow> real \<Rightarrow> real" where
  "cyclical_m L mu R =
     (let rho = (L + mu) / (L - mu)
      in ((sqrt (rho\<^sup>2 - R\<^sup>2) - sqrt (rho\<^sup>2 - 1)) / sqrt (1 - R\<^sup>2))\<^sup>2)"

definition cyclical_body ::
  "mat2 \<Rightarrow> real \<Rightarrow> real \<Rightarrow> real \<Rightarrow> real \<Rightarrow> real \<Rightarrow> loop_state \<Rightarrow> nat \<Rightarrow> loop_state" where
  "cyclical_body H L mu L1 mu2 m s i =
     (let iterates = (all_iterates s)[i := xt s];
          grad_t = matvec H (xt s);
          tmp = xt s;
          new = (if i = 0 then vsub (xt s) (smul (2 / (L + mu)) grad_t)
                 else if i mod 2 = 0 then
                   (let ht = (1 + m) / L1
                    in vadd (vsub (xt s) (smul ht grad_t)) (smul m (vsub (xt s) (xt_old s))))
                 else if i mod 2 = 1 then
                   (let ht = (1 + m) / mu2
                    in vadd (vsub (xt s) (smul ht grad_t)) (smul m (vsub (xt s) (xt_old s))))
                 else xt s)
      in \<lparr>xt = new, xt_old = tmp, all_iterates = iterates\<rparr>)"

definition all_iterates_cyclical ::
  "mat2 \<Rightarrow> vec2 \<Rightarrow> real \<Rightarrow> real \<Rightarrow> real \<Rightarrow> nat \<Rightarrow> vec2 list" where
  "all_iterates_cyclical H x_init L mu R max_iter =
     (let L1 = L1_of mu L R;
          mu2 = mu2_of mu L R;
          m = cyclical_m L mu R
      in all_iterates (foldl (cyclical_body H L mu L1 mu2 m) (init_state x_init max_iter) [0..<max_iter]))"

text \<open>The constants of the cell: the Hessian, the starting point, its eigenvalues, \<open>R\<close>.\<close>

definition H_cell :: mat2 where
  "H_cell = ((2, 0), (0, 1 / 5))"

definition x_init_cell :: vec2 where
  "x_init_cell = (3 / 2, 5 / 2)"

text \<open>
  Both loops have the same shape: store the iterate, compute the next one from the current
  and the previous one, keep the current one as the previous. \<open>trajectory F x0 n\<close> is the
  pair of the current and the previous iterate after \<open>n\<close> passes of such a loop.
\<close>

fun trajectory :: "(nat \<Rightarrow> vec2 \<Rightarrow> vec2 \<Rightarrow> vec2) \<Rightarrow> vec2 \<Rightarrow> nat \<Rightarrow> vec2 \<times> vec2" where
  "trajectory F x0 0 = (x0, x0)"
| "trajectory F x0 (Suc n) = (F n (fst (trajectory F x0 n)) (snd (trajectory F x0 n)), fst (trajectory F x0 n))"

definition momentum_update :: "mat2 \<Rightarrow> real \<Rightarrow> real \<Rightarrow> real \<Rightarrow> real \<Rightarrow> nat \<Rightarrow> vec2 \<Rightarrow> vec2 \<Rightarrow> vec2" where
  "momentum_update H L mu h m i x x_old =
     (if i = 0 then vsub x (smul (2 / (L + mu)) (matvec H x))
      else vadd (vsub x (smul h (matvec H x))) (smul m (vsub x x_old)))"

definition cyclical_update ::
  "mat2 \<Rightarrow> real \<Rightarrow> real \<Rightarrow> real \<Rightarrow> real \<Rightarrow> real \<Rightarrow> nat \<Rightarrow> vec2 \<Rightarrow> vec2 \<Rightarrow> vec2" where
  "cyclical_update H L mu L1 mu2 m i x x_old =
     (if i = 0 then vsub x (smul (2 / (L + mu)) (matvec H x))
      else vadd (vsub x (smul ((1 + m) / (if even i then L1 else mu2)) (matvec H x)))
                (smul m (vsub x x_old)))"


section \<open>Names of the frame files\<close>

text \<open>
  \<^verbatim>\<open>'%02d' % i\<close> writes the integer \<open>i\<close> in decimal, padded with zeros on the left to a
  width of two characters; a negative number has its sign first.
\<close>

definition digit_char :: "nat \<Rightarrow> char" where
  "digit_char d = ''0123456789'' ! (d mod 10)"

fun decimal :: "nat \<Rightarrow> string" where
  "decimal n = (if n < 10 then [digit_char n] else decimal (n div 10) @ [digit_char (n mod 10)])"

definition fmt_02d :: "int \<Rightarrow> string" where
  "fmt_02d i =
     (if i < 0 then CHR ''-'' # decimal (nat (- i))
      else if i < 10 then CHR ''0'' # decimal (nat i)
      else decimal (nat i))"

text \<open>The paths of the seven frame loops, each as a function of the loop's variable.\<close>

definition f_path_comparison :: "nat \<Rightarrow> string" where
  "f_path_comparison i = ''comparison_cyclical_'' @ fmt_02d (int i) @ ''.png''"

definition f_path_residual :: "nat \<Rightarrow> string" where
  "f_path_residual t = ''CyclicalResidualPolynomial'' @ fmt_02d (int t div 2) @ ''.png''"

definition f_path_link_constant :: "nat \<Rightarrow> string" where
  "f_path_link_constant i = ''link_function_constant_'' @ fmt_02d (int i) @ ''.png''"

definition f_path_link_cyclical :: "nat \<Rightarrow> string" where
  "f_path_link_cyclical i = ''link_function_cyclical_'' @ fmt_02d (int i) @ ''.png''"

definition f_path_robust_region :: "nat \<Rightarrow> string" where
  "f_path_robust_region i_R = ''robust_region_cyclical_'' @ fmt_02d (int i_R) @ ''.png''"

definition f_path_rate_convergence :: "nat \<Rightarrow> string" where
  "f_path_rate_convergence it = ''rate_convergence_cyclical_'' @ fmt_02d (int it) @ ''.png''"

definition f_path_asymptotic_rate :: "nat \<Rightarrow> string" where
  "f_path_asymptotic_rate i = ''asymptotic_rate_'' @ fmt_02d (int i) @ ''.png''"

text \<open>
  The values of the loop variable: \<^verbatim>\<open>range(max_iter)\<close> with \<open>max_iter = 10\<close>,
  \<^verbatim>\<open>range(2, 19, 2)\<close>, and the positions of \<^verbatim>\<open>enumerate\<close> over arrays of 40, 40, 60, 80 and
  38 entries.
\<close>

definition frames_comparison :: "string list" where
  "frames_comparison = map f_path_comparison [0..<10]"

definition frames_residual :: "string list" where
  "frames_residual = map (\<lambda>k. f_path_residual (2 + 2 * k)) [0..<9]"

definition frames_link_constant :: "string list" where
  "frames_link_constant = map f_path_link_constant [0..<20 + 20]"

definition frames_link_cyclical :: "string list" where
  "frames_link_cyclical = map f_path_link_cyclical [0..<20 + 20]"

definition frames_robust_region :: "string list" where
  "frames_robust_region = map f_path_robust_region [0..<30 + 30]"

definition frames_rate_convergence :: "string list" where
  "frames_rate_convergence = map f_path_rate_convergence [0..<40 + 40]"

definition frames_asymptotic_rate :: "string list" where
  "frames_asymptotic_rate = map f_path_asymptotic_rate [0..<19 + 19]"

text \<open>
  The naming convention of the specification: a prefix, an underscore, the frame index as
  two decimal digits, and \<^verbatim>\<open>.png\<close>.
\<close>

definition convention_name :: "string \<Rightarrow> nat \<Rightarrow> string" where
  "convention_name prefix i =
     prefix @ ''_'' @ [digit_char (i div 10), digit_char (i mod 10)] @ ''.png''"

definition follows_convention :: "string \<Rightarrow> nat \<Rightarrow> bool" where
  "follows_convention p i =
     (let suffix = ''_'' @ [digit_char (i div 10), digit_char (i mod 10)] @ ''.png''
      in length suffix \<le> length p \<and> drop (length p - length suffix) p = suffix)"


section \<open>Rounding to binary64\<close>

text \<open>
  Rounding is exact on the numbers with 53 significant bits, symmetric, monotone, idempotent,
  and moves a number by at most one part in \<open>2 ^ 53\<close> of its size.
\<close>

lemma round_half_even_error: "\<bar>of_int (round_half_even y) - y\<bar> \<le> 1 / 2"
proof -
  have "of_int \<lfloor>y\<rfloor> \<le> y" "y < of_int \<lfloor>y\<rfloor> + 1" by linarith+
  then show ?thesis by (auto simp add: round_half_even_def Let_def)
qed

lemma round_half_even_unique:
  assumes "\<bar>y - of_int n\<bar> < 1 / 2"
  shows "round_half_even y = n"
proof -
  have e: "\<bar>of_int (round_half_even y) - y\<bar> \<le> 1 / 2" by (rule round_half_even_error)
  have "\<bar>(of_int (round_half_even y) :: real) - of_int n\<bar> < 1" using e assms by linarith
  then have "\<bar>round_half_even y - n\<bar> < 1"
    by (metis of_int_abs of_int_diff of_int_less_1_iff)
  then show ?thesis by linarith
qed

lemma round_half_even_of_int [simp]: "round_half_even (of_int n) = n"
  by (rule round_half_even_unique) simp

lemma round_half_even_between:
  "\<lfloor>y\<rfloor> \<le> round_half_even y \<and> round_half_even y \<le> \<lfloor>y\<rfloor> + 1"
  by (simp add: round_half_even_def Let_def)

lemma round_half_even_mono:
  assumes "y \<le> z"
  shows "round_half_even y \<le> round_half_even z"
proof (cases "\<lfloor>y\<rfloor> = \<lfloor>z\<rfloor>")
  case True
  then have "y - of_int \<lfloor>y\<rfloor> \<le> z - of_int \<lfloor>z\<rfloor>" using assms by simp
  then show ?thesis using True by (auto simp add: round_half_even_def Let_def)
next
  case False
  have "\<lfloor>y\<rfloor> \<le> \<lfloor>z\<rfloor>" using assms by (rule floor_mono)
  then have "\<lfloor>y\<rfloor> + 1 \<le> \<lfloor>z\<rfloor>" using False by linarith
  then show ?thesis
    using round_half_even_between[of y] round_half_even_between[of z] by linarith
qed

lemma round_half_even_minus: "round_half_even (- y) = - round_half_even y"
proof (cases "y = of_int \<lfloor>y\<rfloor>")
  case True
  then obtain n where "y = of_int n" ..
  then show ?thesis by (simp flip: of_int_minus)
next
  case False
  have lo: "of_int \<lfloor>y\<rfloor> \<le> y" and hi: "y < of_int \<lfloor>y\<rfloor> + 1" by linarith+
  have lt: "of_int \<lfloor>y\<rfloor> < y" using lo False by (auto simp add: less_le)
  have "\<lfloor>- y\<rfloor> = - \<lfloor>y\<rfloor> - 1"
  proof (rule floor_unique)
    have "- real_of_int \<lfloor>y\<rfloor> - 1 \<le> - y" using hi by linarith
    then show "of_int (- \<lfloor>y\<rfloor> - 1) \<le> - y" by simp
    have "- y < - real_of_int \<lfloor>y\<rfloor>" using lt by linarith
    then show "- y < of_int (- \<lfloor>y\<rfloor> - 1) + 1" by simp
  qed
  then show ?thesis
    using lt hi by (auto simp add: round_half_even_def Let_def)
qed

lemma binade_bounds:
  assumes "x \<noteq> 0"
  shows "2 powi binade x \<le> \<bar>x\<bar>" and "\<bar>x\<bar> < 2 powi (binade x + 1)"
proof -
  have p: "0 < \<bar>x\<bar>" using assms by simp
  have c: "\<And>k::int. (2::real) powr real_of_int k = 2 powi k" by (simp add: powr_real_of_int')
  have two: "(1::real) < 2" by simp
  have "\<lfloor>log 2 \<bar>x\<bar>\<rfloor> = binade x" by (simp add: binade_def)
  then have "(2::real) powi binade x \<le> \<bar>x\<bar> \<and> \<bar>x\<bar> < 2 powi (binade x + 1)"
    using floor_log_eq_powr_iff[OF p two, of "binade x", unfolded c] by blast
  then show "2 powi binade x \<le> \<bar>x\<bar>" and "\<bar>x\<bar> < 2 powi (binade x + 1)"
    by blast+
qed

lemma binade_unique:
  assumes "2 powi e \<le> \<bar>x\<bar>" and "\<bar>x\<bar> < 2 powi (e + 1)"
  shows "binade x = e"
proof -
  have "0 < (2::real) powi e" by (simp add: zero_less_power_int)
  then have p: "0 < \<bar>x\<bar>" using assms(1) by linarith
  have c: "\<And>k::int. (2::real) powr real_of_int k = 2 powi k" by (simp add: powr_real_of_int')
  have two: "(1::real) < 2" by simp
  show ?thesis
    unfolding binade_def
    using floor_log_eq_powr_iff[OF p two, of e, unfolded c] assms by blast
qed

lemma binade_minus [simp]: "binade (- x) = binade x"
  by (simp add: binade_def)

lemma round64_zero [simp]: "round64 0 = 0"
  by (simp add: round64_def)

lemma round64_minus: "round64 (- x) = - round64 x"
  by (simp add: round64_def round_half_even_minus)

lemma round64_eval:
  assumes "2 powi e \<le> \<bar>x\<bar>" and "\<bar>x\<bar> < 2 powi (e + 1)"
    and "round_half_even (x / 2 powi (e - 52)) = N"
  shows "round64 x = of_int N * 2 powi (e - 52)"
proof -
  have "0 < (2::real) powi e" by (simp add: zero_less_power_int)
  then have "0 < \<bar>x\<bar>" using assms(1) by linarith
  then have "x \<noteq> 0" by simp
  then show ?thesis using binade_unique[OF assms(1,2)] assms(3) by (simp add: round64_def)
qed

lemma round_half_even_tie:
  assumes "y = of_int n + 1 / 2"
  shows "round_half_even y = (if even n then n else n + 1)"
proof -
  have "\<lfloor>y\<rfloor> = n" unfolding assms by (rule floor_unique) simp_all
  then show ?thesis by (simp add: round_half_even_def Let_def assms)
qed

lemma ulp_pos: "0 < (2::real) powi k"
  by (simp add: zero_less_power_int)

lemma powi_two_split: "(2::real) powi (a + b) = 2 powi a * 2 powi b"
  by (simp add: power_int_add)

lemma powi_two_diff: "(2::real) powi (a - b) = 2 powi a / 2 powi b"
  by (simp add: power_int_diff)

lemma powi_two_mono: "a \<le> b \<Longrightarrow> (2::real) powi a \<le> 2 powi b"
  by (rule power_int_increasing) simp_all

lemma powi_two_less_cancel:
  assumes "(2::real) powi a < 2 powi b"
  shows "a < b"
proof (rule ccontr)
  assume "\<not> a < b"
  then have "b \<le> a" by simp
  then have "(2::real) powi b \<le> 2 powi a" by (rule powi_two_mono)
  then show False using assms by simp
qed

lemma powi_two_shift:
  assumes "b = a + int n"
  shows "(2::real) powi a * 2 ^ n = 2 powi b"
proof -
  have "(2::real) powi (a + int n) = 2 powi a * 2 powi (int n)" by (rule powi_two_split)
  then show ?thesis using assms by simp
qed

lemma scaled_in_binade:
  assumes "x \<noteq> 0"
  shows "2 ^ 52 \<le> \<bar>x / 2 powi (binade x - 52)\<bar>" and "\<bar>x / 2 powi (binade x - 52)\<bar> < 2 ^ 53"
proof -
  have u: "0 < (2::real) powi (binade x - 52)" by (rule ulp_pos)
  have a: "\<bar>x / 2 powi (binade x - 52)\<bar> = \<bar>x\<bar> / 2 powi (binade x - 52)"
    using u by (simp add: abs_mult)
  have lo: "2 powi (binade x - 52) * 2 ^ 52 = (2::real) powi binade x"
    by (rule powi_two_shift) simp
  have hi: "2 powi (binade x - 52) * 2 ^ 53 = (2::real) powi (binade x + 1)"
    by (rule powi_two_shift) simp
  show "2 ^ 52 \<le> \<bar>x / 2 powi (binade x - 52)\<bar>"
    unfolding a using u binade_bounds(1)[OF assms] lo
    by (simp add: pos_le_divide_eq mult.commute)
  show "\<bar>x / 2 powi (binade x - 52)\<bar> < 2 ^ 53"
    unfolding a using u binade_bounds(2)[OF assms] hi
    by (simp add: pos_divide_less_eq mult.commute)
qed

lemma round64_error:
  assumes "x \<noteq> 0"
  shows "\<bar>round64 x - x\<bar> \<le> 2 powi (binade x - 53)"
proof -
  define u :: real where "u = 2 powi (binade x - 52)"
  have u: "0 < u" unfolding u_def by (rule ulp_pos)
  have h: "u / 2 = 2 powi (binade x - 53)"
    unfolding u_def using powi_two_diff[of "binade x - 52" 1] by simp
  have "round64 x - x = u * (of_int (round_half_even (x / u)) - x / u)"
    using assms u by (simp add: round64_def u_def field_simps)
  then have "\<bar>round64 x - x\<bar> = u * \<bar>of_int (round_half_even (x / u)) - x / u\<bar>"
    using u by (simp add: abs_mult)
  also have "\<dots> \<le> u * (1 / 2)"
    using u round_half_even_error[of "x / u"] by (intro mult_left_mono) simp_all
  finally show ?thesis using h by simp
qed

lemma round64_relative:
  "\<bar>round64 x - x\<bar> \<le> \<bar>x\<bar> / 2 ^ 53"
proof (cases "x = 0")
  case True then show ?thesis by simp
next
  case False
  have "2 powi (binade x - 53) = (2::real) powi binade x / 2 ^ 53"
    using powi_two_diff[of "binade x" 53] by simp
  also have "\<dots> \<le> \<bar>x\<bar> / 2 ^ 53"
    using binade_bounds(1)[OF False] by (simp add: divide_right_mono)
  finally show ?thesis using round64_error[OF False] by linarith
qed

lemma round64_upper:
  assumes "0 \<le> x"
  shows "round64 x \<le> x * (1 + 1 / 2 ^ 53)"
proof -
  have "round64 x - x \<le> \<bar>x\<bar> / 2 ^ 53" using round64_relative[of x] by linarith
  then have "round64 x \<le> x + x / 2 ^ 53" using assms by simp
  also have "\<dots> = x * (1 + 1 / 2 ^ 53)" by (simp add: algebra_simps)
  finally show ?thesis .
qed

lemma round64_exact:
  assumes "\<bar>n\<bar> < 2 ^ 53"
  shows "round64 (of_int n * 2 powi k) = of_int n * 2 powi k"
proof (cases "n = 0")
  case True then show ?thesis by simp
next
  case False
  define x :: real where "x = of_int n * 2 powi k"
  have x0: "x \<noteq> 0" using False by (simp add: x_def)
  have "\<bar>x\<bar> = of_int \<bar>n\<bar> * 2 powi k" by (simp add: x_def abs_mult)
  also have "\<dots> < 2 ^ 53 * 2 powi k"
  proof (rule mult_strict_right_mono)
    have "real_of_int \<bar>n\<bar> < real_of_int (2 ^ 53)" using assms by (simp only: of_int_less_iff)
    then show "real_of_int \<bar>n\<bar> < 2 ^ 53" by simp
    show "0 < (2::real) powi k" by (rule ulp_pos)
  qed
  also have "\<dots> = 2 powi (53 + k)" using powi_two_split[of 53 k] by simp
  finally have "\<bar>x\<bar> < 2 powi (53 + k)" .
  then have "(2::real) powi binade x < 2 powi (53 + k)"
    using binade_bounds(1)[OF x0] by linarith
  then have "binade x < 53 + k" by (rule powi_two_less_cancel)
  then have "0 \<le> k - (binade x - 52)" by simp
  define j where "j = nat (k - (binade x - 52))"
  have j: "k = binade x - 52 + int j" using \<open>0 \<le> k - (binade x - 52)\<close> by (simp add: j_def)
  define u :: real where "u = 2 powi (binade x - 52)"
  have u: "0 < u" unfolding u_def by (rule ulp_pos)
  have ku: "u * 2 ^ j = (2::real) powi k" unfolding u_def using j by (rule powi_two_shift)
  have "x = of_int n * (u * 2 ^ j)" unfolding ku by (simp add: x_def)
  then have "x / u = of_int n * 2 ^ j" using u by simp
  then have "x / 2 powi (binade x - 52) = of_int n * 2 ^ j" by (simp only: u_def)
  also have "\<dots> = of_int (n * 2 ^ j)" by simp
  finally have "round_half_even (x / 2 powi (binade x - 52)) = n * 2 ^ j"
    by (simp only: round_half_even_of_int)
  then have "round64 x = of_int (n * 2 ^ j) * 2 powi (binade x - 52)"
    using x0 by (simp add: round64_def)
  also have "\<dots> = of_int n * (u * 2 ^ j)" by (simp add: u_def)
  also have "\<dots> = of_int n * 2 powi k" by (simp only: ku)
  finally show ?thesis by (simp only: x_def)
qed

lemma round64_mantissa:
  assumes "0 < x"
  shows "2 ^ 52 \<le> round_half_even (x / 2 powi (binade x - 52))"
    and "round_half_even (x / 2 powi (binade x - 52)) \<le> 2 ^ 53"
proof -
  have x0: "x \<noteq> 0" using assms by simp
  have u: "0 < (2::real) powi (binade x - 52)" by (rule ulp_pos)
  have p: "0 < x / 2 powi (binade x - 52)" using assms u by simp
  have ax: "\<bar>x / 2 powi (binade x - 52)\<bar> = x / 2 powi (binade x - 52)"
    using p by (simp only: abs_of_pos)
  have lo: "real_of_int (2 ^ 52) \<le> x / 2 powi (binade x - 52)"
    using scaled_in_binade(1)[OF x0] unfolding ax by simp
  have hi: "x / 2 powi (binade x - 52) \<le> real_of_int (2 ^ 53)"
    using scaled_in_binade(2)[OF x0] unfolding ax by simp
  show "2 ^ 52 \<le> round_half_even (x / 2 powi (binade x - 52))"
    using round_half_even_mono[OF lo] by (simp only: round_half_even_of_int)
  show "round_half_even (x / 2 powi (binade x - 52)) \<le> 2 ^ 53"
    using round_half_even_mono[OF hi] by (simp only: round_half_even_of_int)
qed

lemma round64_pos_bounds:
  assumes "0 < x"
  shows "2 powi binade x \<le> round64 x" and "round64 x \<le> 2 powi (binade x + 1)"
proof -
  define u :: real where "u = 2 powi (binade x - 52)"
  define N where "N = round_half_even (x / u)"
  have u: "0 < u" unfolding u_def by (rule ulp_pos)
  have r: "round64 x = of_int N * u" using assms by (simp add: round64_def N_def u_def)
  have lo: "u * 2 ^ 52 = 2 powi binade x" unfolding u_def by (rule powi_two_shift) simp
  have hi: "u * 2 ^ 53 = 2 powi (binade x + 1)" unfolding u_def by (rule powi_two_shift) simp
  have "(2::int) ^ 52 \<le> N" unfolding N_def u_def by (rule round64_mantissa(1)[OF assms])
  then have "real_of_int (2 ^ 52) \<le> of_int N" by (simp only: of_int_le_iff)
  then have "2 ^ 52 * u \<le> of_int N * u" using u by (intro mult_right_mono) simp_all
  then show "2 powi binade x \<le> round64 x" using lo r by (simp add: mult.commute)
  have "N \<le> (2::int) ^ 53" unfolding N_def u_def by (rule round64_mantissa(2)[OF assms])
  then have "of_int N \<le> real_of_int (2 ^ 53)" by (simp only: of_int_le_iff)
  then have "of_int N * u \<le> 2 ^ 53 * u" using u by (intro mult_right_mono) simp_all
  then show "round64 x \<le> 2 powi (binade x + 1)" using hi r by (simp add: mult.commute)
qed

lemma round64_pos: "0 < x \<Longrightarrow> 0 < round64 x"
  using round64_pos_bounds(1)[of x] ulp_pos[of "binade x"] by linarith

lemma round64_nonneg: "0 \<le> x \<Longrightarrow> 0 \<le> round64 x"
  using round64_pos[of x] by (cases "x = 0") simp_all

lemma binade_mono:
  assumes "0 < x" and "x \<le> y"
  shows "binade x \<le> binade y"
proof -
  have "2 powi binade x \<le> \<bar>x\<bar>" using assms(1) by (intro binade_bounds) simp
  moreover have "\<bar>y\<bar> < 2 powi (binade y + 1)" using assms by (intro binade_bounds) simp
  ultimately have "(2::real) powi binade x < 2 powi (binade y + 1)" using assms by simp
  then have "binade x < binade y + 1" by (rule powi_two_less_cancel)
  then show ?thesis by simp
qed

lemma round64_mono_pos:
  assumes "0 < x" and "x \<le> y"
  shows "round64 x \<le> round64 y"
proof (cases "binade x = binade y")
  case True
  have y: "0 < y" using assms by simp
  have u: "0 < (2::real) powi (binade y - 52)" by (rule ulp_pos)
  have "x / 2 powi (binade y - 52) \<le> y / 2 powi (binade y - 52)"
    using assms(2) u by (simp add: divide_right_mono)
  then have "round_half_even (x / 2 powi (binade y - 52)) \<le> round_half_even (y / 2 powi (binade y - 52))"
    by (rule round_half_even_mono)
  then have "real_of_int (round_half_even (x / 2 powi (binade y - 52)))
             \<le> real_of_int (round_half_even (y / 2 powi (binade y - 52)))"
    by (simp only: of_int_le_iff)
  then show ?thesis using assms y u True by (simp add: round64_def mult_right_mono)
next
  case False
  have y: "0 < y" using assms by simp
  have "binade x \<le> binade y" using assms by (rule binade_mono)
  then have "binade x + 1 \<le> binade y" using False by simp
  then have "(2::real) powi (binade x + 1) \<le> 2 powi binade y" by (rule powi_two_mono)
  then show ?thesis
    using round64_pos_bounds(2)[OF assms(1)] round64_pos_bounds(1)[OF y] by linarith
qed

lemma round64_mono:
  assumes "x \<le> y"
  shows "round64 x \<le> round64 y"
proof -
  consider "0 < x" | "x \<le> 0" "0 \<le> y" | "y < 0" using assms by linarith
  then show ?thesis
  proof cases
    case 1 then show ?thesis using assms by (rule round64_mono_pos)
  next
    case 2
    have "0 \<le> round64 (- x)" using 2(1) by (intro round64_nonneg) simp
    then have "round64 x \<le> 0" by (simp add: round64_minus)
    moreover have "0 \<le> round64 y" using 2(2) by (rule round64_nonneg)
    ultimately show ?thesis by linarith
  next
    case 3
    have "round64 (- y) \<le> round64 (- x)" using 3 assms by (intro round64_mono_pos) simp_all
    then show ?thesis by (simp add: round64_minus)
  qed
qed

lemma round64_idem_pos:
  assumes "0 < x"
  shows "round64 (round64 x) = round64 x"
proof -
  define N where "N = round_half_even (x / 2 powi (binade x - 52))"
  have r: "round64 x = of_int N * 2 powi (binade x - 52)" using assms by (simp add: round64_def N_def)
  have lo: "2 ^ 52 \<le> N" and hi: "N \<le> 2 ^ 53"
    unfolding N_def by (rule round64_mantissa[OF assms])+
  show ?thesis
  proof (cases "N = 2 ^ 53")
    case True
    have "round64 x = of_int 1 * 2 powi (binade x + 1)"
      unfolding r True using powi_two_shift[of "binade x + 1" "binade x - 52" 53] by (simp add: mult.commute)
    moreover have "round64 (of_int 1 * 2 powi (binade x + 1)) = of_int 1 * 2 powi (binade x + 1)"
      by (rule round64_exact) simp
    ultimately show ?thesis by simp
  next
    case False
    then have "\<bar>N\<bar> < 2 ^ 53" using lo hi by simp
    then show ?thesis unfolding r by (rule round64_exact)
  qed
qed

lemma round64_idem [simp]: "round64 (round64 x) = round64 x"
proof -
  consider "x = 0" | "0 < x" | "x < 0" by linarith
  then show ?thesis
  proof cases
    case 1 then show ?thesis by simp
  next
    case 2 then show ?thesis by (rule round64_idem_pos)
  next
    case 3
    then have "round64 (round64 (- x)) = round64 (- x)" by (intro round64_idem_pos) simp
    then show ?thesis by (simp add: round64_minus)
  qed
qed

lemma round64_dyadic:
  assumes "\<bar>n\<bar> < 2 ^ 53"
  shows "round64 (of_int n / 2 ^ k) = of_int n / 2 ^ k"
proof -
  have "of_int n / 2 ^ k = of_int n * (2::real) powi (- int k)"
    by (simp add: power_int_minus field_simps)
  then show ?thesis using round64_exact[OF assms, of "- int k"] by simp
qed

lemma round64_one [simp]: "round64 1 = 1"
  using round64_dyadic[of 1 0] by simp

lemma round64_between:
  assumes "a \<le> x" and "x \<le> b" and "round64 a = a" and "round64 b = b"
  shows "a \<le> round64 x" and "round64 x \<le> b"
  using round64_mono[OF assms(1)] round64_mono[OF assms(2)] assms(3,4) by simp_all

text \<open>
  The square root of a rounded square is the number itself: \<^verbatim>\<open>np.sqrt(x ** 2)\<close> returns \<open>x\<close>
  for a positive binary64 number \<open>x\<close>.
\<close>

lemma float_mantissa:
  assumes "0 < x" and "round64 x = x"
  obtains N :: int where "x = of_int N * 2 powi (binade x - 52)" and "2 ^ 52 \<le> N" and "N < 2 ^ 53"
proof -
  define u :: real where "u = 2 powi (binade x - 52)"
  define N where "N = round_half_even (x / u)"
  have u: "0 < u" unfolding u_def by (rule ulp_pos)
  have x: "x = of_int N * u" using assms by (simp add: round64_def N_def u_def)
  have lo: "2 ^ 52 \<le> N" unfolding N_def u_def by (rule round64_mantissa(1)[OF assms(1)])
  have "x < 2 powi (binade x + 1)" using binade_bounds(2)[of x] assms(1) by simp
  also have "\<dots> = 2 ^ 53 * u" unfolding u_def using powi_two_shift[of "binade x + 1" "binade x - 52" 53] by (simp add: mult.commute)
  finally have "of_int N * u < 2 ^ 53 * u" using x by simp
  then have "real_of_int N < 2 ^ 53" using u by simp
  then have "real_of_int N < real_of_int (2 ^ 53)" by simp
  then have hi: "N < 2 ^ 53" by (simp only: of_int_less_iff)
  show thesis using that[OF x[unfolded u_def] lo hi] .
qed

lemma sqrt_powi_even: "sqrt (2 powi (2 * e)) = 2 powi e"
proof -
  have "(2::real) powi (2 * e) = (2 powi e)\<^sup>2"
    using powi_two_split[of e e] by (simp add: power2_eq_square)
  moreover have "0 \<le> (2::real) powi e" using ulp_pos[of e] by simp
  ultimately show ?thesis by simp
qed

lemma sqrt_close:
  fixes x z :: real
  assumes x: "0 < x" and z: "0 \<le> z" and s: "s0 \<le> sqrt z + x" and s0: "0 < s0"
    and b: "\<bar>z - x * x\<bar> \<le> b"
  shows "\<bar>sqrt z - x\<bar> \<le> b / s0"
proof -
  have pos: "0 < sqrt z + x" using s s0 by linarith
  have eq: "(sqrt z - x) * (sqrt z + x) = z - x * x"
    using z by (simp add: algebra_simps)
  have "\<bar>sqrt z - x\<bar> * \<bar>sqrt z + x\<bar> = \<bar>z - x * x\<bar>"
    unfolding eq[symmetric] by (rule abs_mult[symmetric])
  then have "\<bar>sqrt z - x\<bar> * (sqrt z + x) = \<bar>z - x * x\<bar>"
    using pos by (simp only: abs_of_pos)
  then have "\<bar>sqrt z - x\<bar> * s0 \<le> b"
    using b s mult_left_mono[OF s, of "\<bar>sqrt z - x\<bar>"] by simp
  then show ?thesis using s0 by (simp add: pos_le_divide_eq)
qed

lemma sqrt_of_rounded_square:
  assumes x: "0 < x" and fl: "round64 x = x"
  shows "round64 (sqrt (round64 (x * x))) = x"
proof -
  define e where "e = binade x"
  define u :: real where "u = 2 powi (e - 52)"
  define z where "z = round64 (x * x)"
  obtain N :: int where xN: "x = of_int N * u" and Nlo: "2 ^ 52 \<le> N" and Nhi: "N < 2 ^ 53"
    using float_mantissa[OF x fl] unfolding u_def e_def by blast
  have u: "0 < u" unfolding u_def by (rule ulp_pos)
  have pe: "0 < (2::real) powi e" by (rule ulp_pos)
  have xlo: "2 powi e \<le> x" and xhi: "x < 2 powi (e + 1)"
    using binade_bounds[of x] x unfolding e_def by simp_all
  have xx: "0 < x * x" using x by simp
  have sq_lo: "2 powi (2 * e) \<le> x * x"
  proof -
    have "2 powi e * 2 powi e \<le> x * x" using xlo pe x by (intro mult_mono) simp_all
    then show ?thesis using powi_two_split[of e e] by simp
  qed
  have z0: "0 < z" unfolding z_def using xx by (rule round64_pos)
  have zlo: "2 powi (2 * e) \<le> z"
  proof -
    have "round64 (2 powi (2 * e)) \<le> round64 (x * x)" using sq_lo by (rule round64_mono)
    moreover have "round64 (of_int 1 * 2 powi (2 * e)) = of_int 1 * 2 powi (2 * e)"
      by (rule round64_exact) simp
    ultimately show ?thesis by (simp add: z_def)
  qed
  have rlo: "2 powi e \<le> sqrt z"
    using real_sqrt_le_mono[OF zlo] by (simp only: sqrt_powi_even)
  have uq: "u / 4 = 2 powi (e - 54)" unfolding u_def using powi_two_diff[of "e - 52" 2] by simp
  have close: "\<bar>sqrt z - x\<bar> < u / 2"
  proof (cases "x * x < 2 powi (2 * e + 1)")
    case True
    have be: "binade (x * x) = 2 * e"
      using sq_lo True xx by (intro binade_unique) simp_all
    have "\<bar>z - x * x\<bar> \<le> 2 powi (2 * e - 53)"
      using round64_error[of "x * x"] xx be x by (simp add: z_def)
    moreover have "2 powi (e + 1) \<le> sqrt z + x"
    proof -
      have "(2::real) powi (e + 1) = 2 powi e + 2 powi e" using powi_two_split[of e 1] by simp
      then show ?thesis using rlo xlo by linarith
    qed
    ultimately have "\<bar>sqrt z - x\<bar> \<le> 2 powi (2 * e - 53) / 2 powi (e + 1)"
      using sqrt_close[OF x less_imp_le[OF z0], of "2 powi (e + 1)" "2 powi (2 * e - 53)"] ulp_pos[of "e + 1"]
      by simp
    also have "\<dots> = 2 powi (e - 54)"
      using powi_two_diff[of "2 * e - 53" "e + 1"] by simp
    also have "\<dots> = u / 4" by (simp only: uq)
    also have "\<dots> < u / 2" using u by simp
    finally show ?thesis .
  next
    case False
    then have ge: "2 powi (2 * e + 1) \<le> x * x" by simp
    have "x * x < 2 powi (e + 1) * 2 powi (e + 1)"
      using xhi x by (intro mult_strict_mono) simp_all
    then have lt: "x * x < 2 powi (2 * e + 1 + 1)"
      using powi_two_split[of "e + 1" "e + 1"] by (simp add: algebra_simps)
    have be: "binade (x * x) = 2 * e + 1"
      using ge lt xx by (intro binade_unique) simp_all
    have err: "\<bar>z - x * x\<bar> \<le> 2 powi (2 * e - 52)"
      using round64_error[of "x * x"] xx be x by (simp add: z_def)
    define c :: real where "c = 7 / 5 * 2 powi e"
    have c0: "0 \<le> c" unfolding c_def using pe by simp
    have cc: "c * c \<le> 2 powi (2 * e + 1)"
    proof -
      have "c * c = 49 / 25 * (2 powi e * 2 powi e)" by (simp add: c_def)
      also have "\<dots> = 49 / 25 * 2 powi (2 * e)" using powi_two_split[of e e] by simp
      also have "\<dots> \<le> 2 * 2 powi (2 * e)" using ulp_pos[of "2 * e"] by simp
      also have "\<dots> = 2 powi (2 * e + 1)" using powi_two_split[of "2 * e" 1] by simp
      finally show ?thesis .
    qed
    have cx: "c \<le> x"
    proof (rule ccontr)
      assume "\<not> c \<le> x"
      then have "x * x < c * c" using x by (intro mult_strict_mono) simp_all
      then show False using cc ge by linarith
    qed
    have zge: "2 powi (2 * e + 1) \<le> z"
    proof -
      have "round64 (2 powi (2 * e + 1)) \<le> round64 (x * x)" using ge by (rule round64_mono)
      moreover have "round64 (of_int 1 * 2 powi (2 * e + 1)) = of_int 1 * 2 powi (2 * e + 1)"
        by (rule round64_exact) simp
      ultimately show ?thesis by (simp add: z_def)
    qed
    have cz: "c \<le> sqrt z"
    proof -
      have "c * c \<le> z" using cc zge by linarith
      then have "sqrt (c * c) \<le> sqrt z" by (rule real_sqrt_le_mono)
      then show ?thesis using c0 by simp
    qed
    have s: "14 / 5 * 2 powi e \<le> sqrt z + x" using cz cx by (simp add: c_def)
    have "\<bar>sqrt z - x\<bar> \<le> 2 powi (2 * e - 52) / (14 / 5 * 2 powi e)"
      using sqrt_close[OF x less_imp_le[OF z0] s _ err] pe by simp
    also have "\<dots> = 5 / 14 * (2 powi (2 * e - 52) / 2 powi e)" by simp
    also have "2 powi (2 * e - 52) / 2 powi e = u"
      unfolding u_def using powi_two_diff[of "2 * e - 52" e] by simp
    also have "5 / 14 * u < u / 2" using u by simp
    finally show ?thesis .
  qed
  define y where "y = sqrt z"
  have ylo: "2 powi e \<le> \<bar>y\<bar>" using rlo pe by (simp add: y_def)
  have top: "2 powi (e + 1) = 2 ^ 53 * u"
    unfolding u_def using powi_two_shift[of "e + 1" "e - 52" 53] by (simp add: mult.commute)
  have "of_int N \<le> (2::real) ^ 53 - 1"
  proof -
    have "N \<le> 2 ^ 53 - 1" using Nhi by simp
    then have "real_of_int N \<le> real_of_int (2 ^ 53 - 1)" by (simp only: of_int_le_iff)
    then show ?thesis by simp
  qed
  then have a: "of_int N * u \<le> (2 ^ 53 - 1) * u" using u by (intro mult_right_mono) simp_all
  have b: "(2 ^ 53 - 1) * u = 2 ^ 53 * u - u" by (simp add: algebra_simps)
  have "x + u / 2 < 2 powi (e + 1)" unfolding top xN using a b u by linarith
  then have yhi: "\<bar>y\<bar> < 2 powi (e + 1)" using close rlo pe unfolding y_def by linarith
  have "y / u - of_int N = (y - x) / u" using u by (simp add: xN field_simps)
  then have "\<bar>y / u - of_int N\<bar> = \<bar>y - x\<bar> / \<bar>u\<bar>" by (simp only: abs_divide)
  then have "\<bar>y / u - of_int N\<bar> = \<bar>y - x\<bar> / u" using u by (simp only: abs_of_pos)
  also have "\<dots> < 1 / 2" using close u by (simp add: y_def pos_divide_less_eq)
  finally have "round_half_even (y / u) = N" by (rule round_half_even_unique)
  then have "round64 y = of_int N * u" unfolding u_def using ylo yhi by (intro round64_eval)
  then show ?thesis by (simp add: y_def z_def xN)
qed

text \<open>
  The rounded square root of \<open>x\<close> is \<open>N\<close> units in the last place when \<open>x\<close> lies strictly
  between the squares of \<open>N - 1/2\<close> and \<open>N + 1/2\<close> units.
\<close>

lemma round64_sqrt_eval:
  fixes N :: int
  assumes N: "2 ^ 52 < N" "N < 2 ^ 53"
    and lo: "((of_int N - 1 / 2) * 2 powi (e - 52))\<^sup>2 < x"
    and hi: "x < ((of_int N + 1 / 2) * 2 powi (e - 52))\<^sup>2"
  shows "round64 (sqrt x) = of_int N * 2 powi (e - 52)"
proof -
  define u :: real where "u = 2 powi (e - 52)"
  define s where "s = sqrt x"
  define n :: real where "n = of_int N"
  have u: "0 < u" unfolding u_def by (rule ulp_pos)
  have "2 ^ 52 + 1 \<le> N" using N(1) by simp
  then have "real_of_int (2 ^ 52 + 1) \<le> real_of_int N" by (simp only: of_int_le_iff)
  then have n_lo: "2 ^ 52 + 1 \<le> n" by (simp add: n_def)
  have "N + 1 \<le> 2 ^ 53" using N(2) by simp
  then have "real_of_int (N + 1) \<le> real_of_int (2 ^ 53)" by (simp only: of_int_le_iff)
  then have n_hi: "n + 1 \<le> 2 ^ 53" by (simp add: n_def)
  have s_lo: "(n - 1 / 2) * u < s"
    unfolding s_def n_def u_def using lo by (rule real_less_rsqrt)
  have "0 \<le> (n + 1 / 2) * u" using n_lo u by (intro mult_nonneg_nonneg) simp_all
  then have s_hi: "s < (n + 1 / 2) * u"
    unfolding s_def n_def u_def using hi by (intro real_less_lsqrt)
  have e_lo: "u * 2 ^ 52 = 2 powi e"
    unfolding u_def by (rule powi_two_shift) simp
  have e_hi: "u * 2 ^ 53 = 2 powi (e + 1)"
    unfolding u_def by (rule powi_two_shift) simp
  have "2 ^ 52 * u \<le> (n - 1 / 2) * u" using n_lo u by (intro mult_right_mono) simp_all
  then have b_lo: "2 powi e \<le> s" using s_lo e_lo by (simp add: mult.commute)
  have "(n + 1 / 2) * u \<le> 2 ^ 53 * u" using n_hi u by (intro mult_right_mono) simp_all
  then have b_hi: "s < 2 powi (e + 1)" using s_hi e_hi by (simp add: mult.commute)
  have s0: "0 < s" using b_lo ulp_pos[of e] by linarith
  have q_lo: "n - 1 / 2 < s / u" using s_lo u by (simp only: pos_less_divide_eq)
  have q_hi: "s / u < n + 1 / 2" using s_hi u by (simp only: pos_divide_less_eq)
  have "\<bar>s / u - n\<bar> < 1 / 2" using q_lo q_hi by linarith
  then have r: "round_half_even (s / 2 powi (e - 52)) = N"
    unfolding n_def u_def by (rule round_half_even_unique)
  have a: "\<bar>s\<bar> = s" using s0 by simp
  have "round64 s = of_int N * 2 powi (e - 52)"
    using b_lo b_hi r by (intro round64_eval) (simp_all only: a)
  then show ?thesis by (simp only: s_def)
qed


section \<open>The residual polynomials in exact arithmetic\<close>

lemma exact_ops:
  "radd (\<lambda>x. x) a b = a + b" "rsub (\<lambda>x. x) a b = a - b" "rmul (\<lambda>x. x) a b = a * b"
  "rsquare (\<lambda>x. x) a = a\<^sup>2" "rhalf (\<lambda>x. x) a = a / 2"
  "rdiv (\<lambda>x. x) a b = fdiv a b" "rsqrt (\<lambda>x. x) a = fsqrt a"
  by (simp_all add: radd_def rsub_def rmul_def rsquare_def rhalf_def rdiv_def rsqrt_def
      fdiv_def fsqrt_def power2_eq_square)

lemma poly_polyak_exact:
  "poly_polyak exact_arith g x low high degree = do {
     sh \<leftarrow> fsqrt high;
     sl \<leftarrow> fsqrt low;
     q \<leftarrow> fdiv (sh - sl) (sh + sl);
     let m = q\<^sup>2;
     q2 \<leftarrow> fdiv 2 (sh + sl);
     let h = q2\<^sup>2;
     sm \<leftarrow> fsqrt m;
     s \<leftarrow> fdiv (1 + m - h * x) (2 * sm);
     let cheb1_part = eval_chebyt degree s;
     let cheb2_part = eval_chebyu degree s;
     p \<leftarrow> fpow m (of_int (t_glob g) / 2);
     c1 \<leftarrow> fdiv (2 * m) (1 + m);
     c2 \<leftarrow> fdiv (1 - m) (1 + m);
     Some (p * (c1 * cheb1_part + c2 * cheb2_part))
   }"
  by (simp only: poly_polyak_def exact_arith_def arith.select_convs exact_ops Let_def
      Option.bind.bind_lunit)

lemma poly_cyclical_exact:
  "poly_cyclical exact_arith g x mu1 L1 mu2 L2 degree = do {
     rho \<leftarrow> fdiv (L2 + mu1) (L2 - mu1);
     R \<leftarrow> fdiv (mu2 - L1) (L2 - mu1);
     a \<leftarrow> fsqrt (rho\<^sup>2 - R\<^sup>2);
     b \<leftarrow> fsqrt (rho\<^sup>2 - 1);
     c \<leftarrow> fsqrt (1 - R\<^sup>2);
     q \<leftarrow> fdiv (a - b) c;
     let m = q\<^sup>2;
     h0 \<leftarrow> fdiv (1 + m) L1;
     h1 \<leftarrow> fdiv (1 + m) mu2;
     let tmp = (1 + m - h0 * x) * (1 + m - h1 * x);
     root \<leftarrow> fsqrt \<bar>tmp\<bar>;
     sm \<leftarrow> fsqrt m;
     s \<leftarrow> fdiv (root * sgn tmp) (2 * sm);
     let cheb1_part = eval_chebyt degree s;
     let cheb2_part = eval_chebyu degree s;
     p \<leftarrow> fpow m (of_int (t_glob g) / 2);
     c1 \<leftarrow> fdiv (2 * m) (1 + m);
     c2 \<leftarrow> fdiv (1 - m) (1 + m);
     Some (p * (c1 * cheb1_part + c2 * cheb2_part))
   }"
  by (simp only: poly_cyclical_def exact_arith_def arith.select_convs exact_ops Let_def
      Option.bind.bind_lunit)

section \<open>Chebyshev polynomials at \<open>(q + 1/q) / 2\<close>\<close>

lemma chebyt_cosh_form:
  fixes q r s :: real
  assumes "q * r = 1" and "2 * s = q + r"
  shows "2 * eval_chebyt n s = q ^ n + r ^ n"
  using assms(2)
proof (induction n s rule: eval_chebyt.induct)
  case (1 x) show ?case by simp
next
  case (2 x) then show ?case by simp
next
  case (3 n x)
  have a: "q * r ^ Suc n = r ^ n" using assms(1) by (simp add: mult.assoc[symmetric])
  have b: "r * q ^ Suc n = q ^ n" using assms(1) by (simp add: mult.assoc[symmetric] mult.commute)
  have "2 * eval_chebyt (Suc (Suc n)) x
        = (2 * x) * (2 * eval_chebyt (Suc n) x) - 2 * eval_chebyt n x"
    by (simp add: algebra_simps)
  also have "\<dots> = (q + r) * (q ^ Suc n + r ^ Suc n) - (q ^ n + r ^ n)"
    using 3 by simp
  also have "\<dots> = q * q ^ Suc n + q * r ^ Suc n + r * q ^ Suc n + r * r ^ Suc n - q ^ n - r ^ n"
    by (simp add: algebra_simps)
  also have "\<dots> = q ^ Suc (Suc n) + r ^ Suc (Suc n)"
    unfolding a b by simp
  finally show ?case .
qed

lemma chebyu_cosh_form:
  fixes q r s :: real
  assumes "q * r = 1" and "2 * s = q + r"
  shows "(r - q) * eval_chebyu n s = r ^ Suc n - q ^ Suc n"
  using assms(2)
proof (induction n s rule: eval_chebyu.induct)
  case (1 x) show ?case by simp
next
  case (2 x)
  have "(r - q) * eval_chebyu (Suc 0) x = (r - q) * (2 * x)" by simp
  also have "\<dots> = (r - q) * (q + r)" using 2 by simp
  also have "\<dots> = r ^ Suc (Suc 0) - q ^ Suc (Suc 0)" by (simp add: algebra_simps)
  finally show ?case .
next
  case (3 n x)
  have a: "q * r ^ Suc (Suc n) = r ^ Suc n" using assms(1) by (simp add: mult.assoc[symmetric])
  have b: "r * q ^ Suc (Suc n) = q ^ Suc n" using assms(1) by (simp add: mult.assoc[symmetric] mult.commute)
  have "(r - q) * eval_chebyu (Suc (Suc n)) x
        = (2 * x) * ((r - q) * eval_chebyu (Suc n) x) - (r - q) * eval_chebyu n x"
    by (simp add: algebra_simps)
  also have "\<dots> = (q + r) * (r ^ Suc (Suc n) - q ^ Suc (Suc n)) - (r ^ Suc n - q ^ Suc n)"
    using 3 by simp
  also have "\<dots> = q * r ^ Suc (Suc n) - q * q ^ Suc (Suc n) + r * r ^ Suc (Suc n) - r * q ^ Suc (Suc n) - r ^ Suc n + q ^ Suc n"
    by (simp add: algebra_simps)
  also have "\<dots> = r ^ Suc (Suc (Suc n)) - q ^ Suc (Suc (Suc n))"
    unfolding a b by simp
  finally show ?case .
qed

lemma scaled_combination:
  fixes d :: real
  shows "d \<noteq> 0 \<Longrightarrow> d * (k * (a / d * A + b / d * B)) = k * (a * A + b * B)"
  by (simp add: field_simps)

lemma resid_combination_at_origin:
  fixes q :: real
  assumes q: "0 < q"
  shows "q ^ n * ((2 * q\<^sup>2 / (1 + q\<^sup>2)) * eval_chebyt n ((1 + q\<^sup>2) / (2 * q))
                 + ((1 - q\<^sup>2) / (1 + q\<^sup>2)) * eval_chebyu n ((1 + q\<^sup>2) / (2 * q))) = 1"
proof -
  define r where "r = 1 / q"
  define s where "s = (1 + q\<^sup>2) / (2 * q)"
  have qr: "q * r = 1" using q by (simp add: r_def)
  have s2: "2 * s = q + r" using q by (simp add: s_def r_def field_simps power2_eq_square)
  have T: "2 * eval_chebyt n s = q ^ n + r ^ n" by (rule chebyt_cosh_form[OF qr s2])
  have U: "(r - q) * eval_chebyu n s = r ^ Suc n - q ^ Suc n" by (rule chebyu_cosh_form[OF qr s2])
  have rq: "r - q = (1 - q\<^sup>2) * r" using q by (simp add: r_def field_simps power2_eq_square)
  have U': "(1 - q\<^sup>2) * eval_chebyu n s = r ^ n - q ^ Suc (Suc n)"
  proof -
    have e: "q * (r - q) = 1 - q\<^sup>2" using qr by (simp add: algebra_simps power2_eq_square)
    have "(1 - q\<^sup>2) * eval_chebyu n s = q * ((r - q) * eval_chebyu n s)"
      unfolding e[symmetric] by (simp only: mult.assoc)
    also have "\<dots> = q * r ^ Suc n - q * q ^ Suc n" unfolding U by (simp add: algebra_simps)
    also have "\<dots> = r ^ n - q ^ Suc (Suc n)" using qr by (simp add: mult.assoc[symmetric])
    finally show ?thesis .
  qed
  have pos: "1 + q\<^sup>2 > 0" by (simp add: add_pos_nonneg)
  have qn: "q ^ n * r ^ n = 1" using qr by (simp add: power_mult_distrib[symmetric])
  have "(1 + q\<^sup>2) * (q ^ n * ((2 * q\<^sup>2 / (1 + q\<^sup>2)) * eval_chebyt n s + ((1 - q\<^sup>2) / (1 + q\<^sup>2)) * eval_chebyu n s))
        = q ^ n * (q\<^sup>2 * (2 * eval_chebyt n s) + (1 - q\<^sup>2) * eval_chebyu n s)"
    using pos scaled_combination[of "1 + q\<^sup>2" "q ^ n" "2 * q\<^sup>2" "eval_chebyt n s" "1 - q\<^sup>2" "eval_chebyu n s"]
    by (simp add: mult.assoc mult.left_commute)
  also have "\<dots> = q ^ n * (q\<^sup>2 * (q ^ n + r ^ n) + (r ^ n - q ^ Suc (Suc n)))"
    unfolding T U' ..
  also have "\<dots> = q ^ n * ((1 + q\<^sup>2) * r ^ n)"
    by (simp add: algebra_simps power2_eq_square)
  also have "\<dots> = (1 + q\<^sup>2) * (q ^ n * r ^ n)" by (simp add: algebra_simps)
  also have "\<dots> = (1 + q\<^sup>2) * 1" unfolding qn ..
  finally show ?thesis using pos unfolding s_def by simp
qed

lemma sq_powr_half:
  fixes q :: real
  assumes "0 < q"
  shows "(q\<^sup>2) powr (real_of_int (int n) / 2) = q ^ n"
proof -
  have "(q\<^sup>2) powr (real_of_int (int n) / 2) = (q powr 2) powr (real n / 2)"
    using assms by (simp add: powr_numeral)
  also have "\<dots> = q powr real n" by (simp add: powr_powr)
  also have "\<dots> = q ^ n" using assms by (simp add: powr_realpow)
  finally show ?thesis .
qed

lemma fpow_square:
  fixes q :: real
  assumes "0 < q"
  shows "fpow (q\<^sup>2) (real_of_int (int n) / 2) = Some (q ^ n)"
  using assms sq_powr_half[OF assms, of n] by (simp add: fpow_def)

lemma polyak_ratio_pos:
  fixes low high :: real
  assumes "0 < low" "low < high"
  shows "0 < (sqrt high - sqrt low) / (sqrt high + sqrt low)"
proof -
  have a: "sqrt low < sqrt high" using assms by simp
  have b: "0 < sqrt low" using assms by simp
  have "0 < sqrt high - sqrt low" and "0 < sqrt high + sqrt low"
    using a b by linarith+
  then show ?thesis by (rule divide_pos_pos)
qed

section \<open>The cyclical polynomial at relative gap 0\<close>

lemma rho_sq_minus_one:
  fixes a b :: real
  assumes "0 < b" "b < a"
  shows "((a\<^sup>2 + b\<^sup>2) / (a\<^sup>2 - b\<^sup>2))\<^sup>2 - 1 = (2 * a * b / (a\<^sup>2 - b\<^sup>2))\<^sup>2"
proof -
  have d: "a\<^sup>2 - b\<^sup>2 \<noteq> 0" using assms by (simp add: power2_eq_iff) 
  have "((a\<^sup>2 + b\<^sup>2) / (a\<^sup>2 - b\<^sup>2))\<^sup>2 - 1 = ((a\<^sup>2 + b\<^sup>2)\<^sup>2 - (a\<^sup>2 - b\<^sup>2)\<^sup>2) / (a\<^sup>2 - b\<^sup>2)\<^sup>2"
    using d by (simp add: power_divide diff_divide_distrib)
  also have "(a\<^sup>2 + b\<^sup>2)\<^sup>2 - (a\<^sup>2 - b\<^sup>2)\<^sup>2 = (2 * a * b)\<^sup>2"
    by (simp add: power2_eq_square algebra_simps)
  finally show ?thesis by (simp add: power_divide)
qed

lemma rho_minus_root:
  fixes a b :: real
  assumes "0 < b" "b < a"
  shows "(a\<^sup>2 + b\<^sup>2) / (a\<^sup>2 - b\<^sup>2) - 2 * a * b / (a\<^sup>2 - b\<^sup>2) = (a - b) / (a + b)"
proof -
  have f: "a\<^sup>2 - b\<^sup>2 = (a - b) * (a + b)" by (simp add: power2_eq_square algebra_simps)
  have n: "a\<^sup>2 + b\<^sup>2 - 2 * a * b = (a - b) * (a - b)" by (simp add: power2_eq_square algebra_simps)
  have "(a\<^sup>2 + b\<^sup>2) / (a\<^sup>2 - b\<^sup>2) - 2 * a * b / (a\<^sup>2 - b\<^sup>2) = ((a - b) * (a - b)) / ((a - b) * (a + b))"
    unfolding f[symmetric] n[symmetric] by (simp add: diff_divide_distrib)
  also have "\<dots> = (a - b) / (a + b)" using assms by simp
  finally show ?thesis .
qed

lemma double_over_half:
  fixes c d :: real
  shows "c \<noteq> 0 \<Longrightarrow> (2 * c / d) / (c / 2) = 4 / d"
  by (simp add: field_simps)

lemma cyclical_step_is_polyak_step:
  fixes a b :: real
  assumes "0 < b" "b < a"
  shows "(1 + ((a - b) / (a + b))\<^sup>2) / ((b\<^sup>2 + a\<^sup>2) / 2) = (2 / (a + b))\<^sup>2"
proof -
  have s: "a + b \<noteq> 0" using assms by simp
  have p: "b\<^sup>2 + a\<^sup>2 \<noteq> 0" using assms by (simp add: add_pos_pos less_imp_neq[symmetric])
  have "1 + ((a - b) / (a + b))\<^sup>2 = ((a + b)\<^sup>2 + (a - b)\<^sup>2) / (a + b)\<^sup>2"
    using s by (simp add: power_divide add_divide_distrib)
  also have "(a + b)\<^sup>2 + (a - b)\<^sup>2 = 2 * (b\<^sup>2 + a\<^sup>2)"
    by (simp add: power2_eq_square algebra_simps)
  finally have "(1 + ((a - b) / (a + b))\<^sup>2) / ((b\<^sup>2 + a\<^sup>2) / 2) = (2 * (b\<^sup>2 + a\<^sup>2) / (a + b)\<^sup>2) / ((b\<^sup>2 + a\<^sup>2) / 2)"
    by simp
  also have "\<dots> = 4 / (a + b)\<^sup>2" using p by (rule double_over_half)
  also have "\<dots> = (2 / (a + b))\<^sup>2" by (simp add: power_divide)
  finally show ?thesis .
qed

lemma sqrt_abs_square_sgn:
  fixes u :: real
  shows "sqrt \<bar>u * u\<bar> * sgn (u * u) = \<bar>u\<bar>"
proof (cases "u = 0")
  case True then show ?thesis by simp
next
  case False
  then have "0 < u * u" using not_real_square_gt_zero by blast
  then have "sgn (u * u) = 1" by simp
  moreover have "sqrt \<bar>u * u\<bar> = \<bar>u\<bar>" by (simp add: abs_mult real_sqrt_mult)
  ultimately show ?thesis by simp
qed

lemma chebyt_neg: "eval_chebyt n (- x) = (- 1) ^ n * eval_chebyt n x"
  by (induction n x rule: eval_chebyt.induct) (simp_all add: algebra_simps)

lemma chebyu_neg: "eval_chebyu n (- x) = (- 1) ^ n * eval_chebyu n x"
  by (induction n x rule: eval_chebyu.induct) (simp_all add: algebra_simps)

lemma cheby_abs:
  assumes "even n \<or> 0 \<le> x"
  shows "eval_chebyt n \<bar>x\<bar> = eval_chebyt n x" and "eval_chebyu n \<bar>x\<bar> = eval_chebyu n x"
proof -
  show "eval_chebyt n \<bar>x\<bar> = eval_chebyt n x"
  proof (cases "0 \<le> x")
    case True then show ?thesis by simp
  next
    case False
    then have "even n" and "\<bar>x\<bar> = - x" using assms by simp_all
    then show ?thesis by (simp add: chebyt_neg)
  qed
  show "eval_chebyu n \<bar>x\<bar> = eval_chebyu n x"
  proof (cases "0 \<le> x")
    case True then show ?thesis by simp
  next
    case False
    then have "even n" and "\<bar>x\<bar> = - x" using assms by simp_all
    then show ?thesis by (simp add: chebyu_neg)
  qed
qed

lemma poly_polyak_value:
  assumes "0 < mu" "mu < L"
  defines "q \<equiv> (sqrt L - sqrt mu) / (sqrt L + sqrt mu)"
  defines "h \<equiv> (2 / (sqrt L + sqrt mu))\<^sup>2"
  shows "poly_polyak exact_arith g x mu L n =
         Some ((q\<^sup>2) powr (real_of_int (t_glob g) / 2) *
               (2 * q\<^sup>2 / (1 + q\<^sup>2) * eval_chebyt n ((1 + q\<^sup>2 - h * x) / (2 * q)) +
                (1 - q\<^sup>2) / (1 + q\<^sup>2) * eval_chebyu n ((1 + q\<^sup>2 - h * x) / (2 * q))))"
proof -
  have q: "0 < q" unfolding q_def using assms(1,2) by (rule polyak_ratio_pos)
  have sl: "0 < sqrt mu" and sh: "0 < sqrt L" using assms(1,2) by simp_all
  have sum: "sqrt L + sqrt mu \<noteq> 0" using sl sh by linarith
  have p1: "fsqrt L = Some (sqrt L)" and p2: "fsqrt mu = Some (sqrt mu)"
    using assms(1,2) by (simp_all add: fsqrt_def)
  have p3: "fdiv (sqrt L - sqrt mu) (sqrt L + sqrt mu) = Some q"
    using sum by (simp add: fdiv_def q_def)
  have p4: "fdiv 2 (sqrt L + sqrt mu) = Some (2 / (sqrt L + sqrt mu))"
    using sum by (simp add: fdiv_def)
  have p5: "fsqrt (q\<^sup>2) = Some q" using q by (simp add: fsqrt_def)
  have p6: "\<And>u. fdiv u (2 * q) = Some (u / (2 * q))" using q by (simp add: fdiv_def)
  have p7: "fpow (q\<^sup>2) (real_of_int (t_glob g) / 2) = Some ((q\<^sup>2) powr (real_of_int (t_glob g) / 2))"
    using q by (simp add: fpow_def)
  have m1: "1 + q\<^sup>2 \<noteq> 0" using q by (simp add: add_pos_nonneg less_imp_neq[symmetric])
  have p8: "\<And>u. fdiv u (1 + q\<^sup>2) = Some (u / (1 + q\<^sup>2))" using m1 by (simp add: fdiv_def)
  show ?thesis
    by (simp only: poly_polyak_exact p1 p2 p3 p4 p5 p6 p7 p8 Option.bind.bind_lunit Let_def h_def)
qed

lemma poly_cyclical_value:
  assumes "0 < mu" "mu < L"
  defines "q \<equiv> (sqrt L - sqrt mu) / (sqrt L + sqrt mu)"
  defines "h \<equiv> (2 / (sqrt L + sqrt mu))\<^sup>2"
  shows "poly_cyclical exact_arith g x mu ((mu + L) / 2) ((mu + L) / 2) L n =
         Some ((q\<^sup>2) powr (real_of_int (t_glob g) / 2) *
               (2 * q\<^sup>2 / (1 + q\<^sup>2) * eval_chebyt n \<bar>(1 + q\<^sup>2 - h * x) / (2 * q)\<bar> +
                (1 - q\<^sup>2) / (1 + q\<^sup>2) * eval_chebyu n \<bar>(1 + q\<^sup>2 - h * x) / (2 * q)\<bar>))"
proof -
  define a where "a = sqrt L"
  define b where "b = sqrt mu"
  define rho where "rho = (L + mu) / (L - mu)"
  define r where "r = 2 * a * b / (L - mu)"
  have b: "0 < b" and ab: "b < a" using assms(1,2) by (simp_all add: a_def b_def)
  have L: "L = a\<^sup>2" and mu: "mu = b\<^sup>2" using assms(1,2) by (simp_all add: a_def b_def)
  have q: "0 < q" unfolding q_def using assms(1,2) by (rule polyak_ratio_pos)
  have d: "L - mu \<noteq> 0" using assms(2) by simp
  have rho: "0 < rho" unfolding rho_def using assms(1,2) by simp
  have r: "0 \<le> r" unfolding r_def using assms(2) b ab by simp
  have rr: "rho\<^sup>2 - 1 = r\<^sup>2"
    unfolding rho_def r_def L mu using b ab by (rule rho_sq_minus_one)
  have e1: "fdiv (L + mu) (L - mu) = Some rho" using d by (simp add: fdiv_def rho_def)
  have e2: "fdiv ((mu + L) / 2 - (mu + L) / 2) (L - mu) = Some 0" using d by (simp add: fdiv_def)
  have e3: "fsqrt (rho\<^sup>2 - 0\<^sup>2) = Some rho" using rho by (simp add: fsqrt_def)
  have e4: "fsqrt (rho\<^sup>2 - 1) = Some r" unfolding rr using r by (simp add: fsqrt_def)
  have e5: "fsqrt (1 - 0\<^sup>2) = Some 1" by (simp add: fsqrt_def)
  have "rho - r = q"
    unfolding rho_def r_def q_def a_def[symmetric] b_def[symmetric]
    unfolding L mu
    using b ab by (rule rho_minus_root)
  then have e6: "fdiv (rho - r) 1 = Some q" by (simp add: fdiv_def)
  have half: "(mu + L) / 2 \<noteq> 0" using assms(1,2) by simp
  have "(1 + q\<^sup>2) / ((mu + L) / 2) = h"
    unfolding q_def h_def a_def[symmetric] b_def[symmetric]
    unfolding L mu
    using b ab by (rule cyclical_step_is_polyak_step)
  then have e7: "fdiv (1 + q\<^sup>2) ((mu + L) / 2) = Some h" using half by (simp add: fdiv_def)
  have e8: "fsqrt (q\<^sup>2) = Some q" using q by (simp add: fsqrt_def)
  have e9a: "fsqrt \<bar>(1 + q\<^sup>2 - h * x) * (1 + q\<^sup>2 - h * x)\<bar>
             = Some (sqrt \<bar>(1 + q\<^sup>2 - h * x) * (1 + q\<^sup>2 - h * x)\<bar>)"
    by (simp add: fsqrt_def)
  have e9: "fdiv (sqrt \<bar>(1 + q\<^sup>2 - h * x) * (1 + q\<^sup>2 - h * x)\<bar> * sgn ((1 + q\<^sup>2 - h * x) * (1 + q\<^sup>2 - h * x))) (2 * q)
            = Some \<bar>(1 + q\<^sup>2 - h * x) / (2 * q)\<bar>"
    unfolding sqrt_abs_square_sgn using q by (simp add: fdiv_def)
  have e10: "fpow (q\<^sup>2) (real_of_int (t_glob g) / 2) = Some ((q\<^sup>2) powr (real_of_int (t_glob g) / 2))"
    using q by (simp add: fpow_def)
  have m1: "1 + q\<^sup>2 \<noteq> 0" using q by (simp add: add_pos_nonneg less_imp_neq[symmetric])
  have e12: "fdiv (2 * q\<^sup>2) (1 + q\<^sup>2) = Some (2 * q\<^sup>2 / (1 + q\<^sup>2))"
    and e13: "fdiv (1 - q\<^sup>2) (1 + q\<^sup>2) = Some ((1 - q\<^sup>2) / (1 + q\<^sup>2))"
    using m1 by (simp_all add: fdiv_def)
  show ?thesis
    by (simp only: poly_cyclical_exact e1 e2 e3 e4 e5 e6 e7 e8 e9a e9 e10 e12 e13 Option.bind.bind_lunit Let_def)
qed


section \<open>Two calls at degree 0 in binary64\<close>

text \<open>
  The calls \<^verbatim>\<open>poly_polyak(0, 1, 4, 0)\<close> and \<^verbatim>\<open>poly_cyclical(0, 1, 2.5, 2.5, 4, 0)\<close> under
  \<open>t = 0\<close>, one operation after the other: every lemma gives the binary64 result of one
  operation on the results of the operations before it.
\<close>

lemma polyak_step_1: "rsqrt round64 4 = Some 2"
proof -
  have s: "sqrt 4 = 2" by (rule real_sqrt_unique) (simp_all add: power2_eq_square)
  have f: "round64 2 = 2"
    using round64_dyadic[of "2" 0] by simp
  have e: "round64 (sqrt 4) = 2" unfolding s by (rule f)
  show ?thesis unfolding rsqrt_def using e by simp
qed

lemma polyak_step_2: "rsqrt round64 1 = Some 1"
proof -
  have s: "sqrt 1 = 1" by (rule real_sqrt_unique) (simp_all add: power2_eq_square)
  have f: "round64 1 = 1"
    using round64_dyadic[of "1" 0] by simp
  have e: "round64 (sqrt 1) = 1" unfolding s by (rule f)
  show ?thesis unfolding rsqrt_def using e by simp
qed

lemma polyak_step_3: "rsub round64 2 1 = 1"
proof -
  have e: "round64 (2 - 1) = 1"
    using round64_dyadic[of "1" 0] by simp
  show ?thesis unfolding rsub_def using e by simp
qed

lemma polyak_step_4: "radd round64 2 1 = 3"
proof -
  have e: "round64 (2 + 1) = 3"
    using round64_dyadic[of "3" 0] by simp
  show ?thesis unfolding radd_def using e by simp
qed

lemma polyak_step_5: "rdiv round64 1 3 = Some (6004799503160661 / 2 ^ 54)"
proof -
  have "round_half_even ((1 / 3) / 2 powi (- 2 - 52)) = 6004799503160661"
    by (rule round_half_even_unique) (simp add: power_int_minus)
  then have "round64 (1 / 3) = of_int 6004799503160661 * 2 powi (- 2 - 52)"
    by (intro round64_eval) (simp_all add: power_int_minus)
  then have e: "round64 (1 / 3) = 6004799503160661 / 2 ^ 54" by (simp add: power_int_minus)
  show ?thesis unfolding rdiv_def using e by simp
qed

lemma polyak_step_6: "rsquare round64 (6004799503160661 / 2 ^ 54) = 2001599834386887 / 2 ^ 54"
proof -
  have "round_half_even (((6004799503160661 / 2 ^ 54) * (6004799503160661 / 2 ^ 54)) / 2 powi (- 4 - 52)) = 8006399337547548"
    by (rule round_half_even_unique) (simp add: power_int_minus)
  then have "round64 ((6004799503160661 / 2 ^ 54) * (6004799503160661 / 2 ^ 54)) = of_int 8006399337547548 * 2 powi (- 4 - 52)"
    by (intro round64_eval) (simp_all add: power_int_minus)
  then have e: "round64 ((6004799503160661 / 2 ^ 54) * (6004799503160661 / 2 ^ 54)) = 2001599834386887 / 2 ^ 54" by (simp add: power_int_minus)
  show ?thesis unfolding rsquare_def using e by simp
qed

lemma polyak_step_7: "rdiv round64 2 3 = Some (6004799503160661 / 2 ^ 53)"
proof -
  have "round_half_even ((2 / 3) / 2 powi (- 1 - 52)) = 6004799503160661"
    by (rule round_half_even_unique) (simp add: power_int_minus)
  then have "round64 (2 / 3) = of_int 6004799503160661 * 2 powi (- 1 - 52)"
    by (intro round64_eval) (simp_all add: power_int_minus)
  then have e: "round64 (2 / 3) = 6004799503160661 / 2 ^ 53" by (simp add: power_int_minus)
  show ?thesis unfolding rdiv_def using e by simp
qed

lemma polyak_step_8: "rsquare round64 (6004799503160661 / 2 ^ 53) = 2001599834386887 / 2 ^ 52"
proof -
  have "round_half_even (((6004799503160661 / 2 ^ 53) * (6004799503160661 / 2 ^ 53)) / 2 powi (- 2 - 52)) = 8006399337547548"
    by (rule round_half_even_unique) (simp add: power_int_minus)
  then have "round64 ((6004799503160661 / 2 ^ 53) * (6004799503160661 / 2 ^ 53)) = of_int 8006399337547548 * 2 powi (- 2 - 52)"
    by (intro round64_eval) (simp_all add: power_int_minus)
  then have e: "round64 ((6004799503160661 / 2 ^ 53) * (6004799503160661 / 2 ^ 53)) = 2001599834386887 / 2 ^ 52" by (simp add: power_int_minus)
  show ?thesis unfolding rsquare_def using e by simp
qed

lemma polyak_step_9: "rsqrt round64 (2001599834386887 / 2 ^ 54) = Some (6004799503160661 / 2 ^ 54)"
proof -
  have "round64 (sqrt (2001599834386887 / 2 ^ 54)) = of_int 6004799503160661 * 2 powi (- 2 - 52)"
    by (rule round64_sqrt_eval) (simp_all add: power_int_minus power2_eq_square)
  then have e: "round64 (sqrt (2001599834386887 / 2 ^ 54)) = 6004799503160661 / 2 ^ 54" by (simp add: power_int_minus)
  show ?thesis unfolding rsqrt_def using e by simp
qed

lemma polyak_step_10: "radd round64 1 (2001599834386887 / 2 ^ 54) = 2501999792983609 / 2 ^ 51"
proof -
  have "round_half_even ((1 + (2001599834386887 / 2 ^ 54)) / 2 powi (0 - 52)) = 5003999585967218"
    by (rule round_half_even_unique) (simp add: power_int_minus)
  then have "round64 (1 + (2001599834386887 / 2 ^ 54)) = of_int 5003999585967218 * 2 powi (0 - 52)"
    by (intro round64_eval) (simp_all add: power_int_minus)
  then have e: "round64 (1 + (2001599834386887 / 2 ^ 54)) = 2501999792983609 / 2 ^ 51" by (simp add: power_int_minus)
  show ?thesis unfolding radd_def using e by simp
qed

lemma polyak_step_11: "rmul round64 (2001599834386887 / 2 ^ 52) 0 = 0"
proof -
  have e: "round64 ((2001599834386887 / 2 ^ 52) * 0) = 0" by simp
  show ?thesis unfolding rmul_def using e by simp
qed

lemma polyak_step_12: "rsub round64 (2501999792983609 / 2 ^ 51) 0 = 2501999792983609 / 2 ^ 51"
proof -
  have e: "round64 ((2501999792983609 / 2 ^ 51) - 0) = 2501999792983609 / 2 ^ 51"
    using round64_dyadic[of "2501999792983609" 51] by simp
  show ?thesis unfolding rsub_def using e by simp
qed

lemma polyak_step_13: "rmul round64 2 (6004799503160661 / 2 ^ 54) = 6004799503160661 / 2 ^ 53"
proof -
  have e: "round64 (2 * (6004799503160661 / 2 ^ 54)) = 6004799503160661 / 2 ^ 53"
    using round64_dyadic[of "6004799503160661" 53] by simp
  show ?thesis unfolding rmul_def using e by simp
qed

lemma polyak_step_14: "rdiv round64 (2501999792983609 / 2 ^ 51) (6004799503160661 / 2 ^ 53) = Some (7505999378950827 / 2 ^ 52)"
proof -
  have "round_half_even (((2501999792983609 / 2 ^ 51) / (6004799503160661 / 2 ^ 53)) / 2 powi (0 - 52)) = 7505999378950827"
    by (rule round_half_even_unique) (simp add: power_int_minus)
  then have "round64 ((2501999792983609 / 2 ^ 51) / (6004799503160661 / 2 ^ 53)) = of_int 7505999378950827 * 2 powi (0 - 52)"
    by (intro round64_eval) (simp_all add: power_int_minus)
  then have e: "round64 ((2501999792983609 / 2 ^ 51) / (6004799503160661 / 2 ^ 53)) = 7505999378950827 / 2 ^ 52" by (simp add: power_int_minus)
  show ?thesis unfolding rdiv_def using e by simp
qed

lemma polyak_step_15: "rhalf round64 0 = 0"
proof -
  have e: "round64 (0 / 2) = 0" by simp
  show ?thesis unfolding rhalf_def using e by simp
qed

lemma polyak_step_16: "rmul round64 2 (2001599834386887 / 2 ^ 54) = 2001599834386887 / 2 ^ 53"
proof -
  have e: "round64 (2 * (2001599834386887 / 2 ^ 54)) = 2001599834386887 / 2 ^ 53"
    using round64_dyadic[of "2001599834386887" 53] by simp
  show ?thesis unfolding rmul_def using e by simp
qed

lemma polyak_step_17: "rdiv round64 (2001599834386887 / 2 ^ 53) (2501999792983609 / 2 ^ 51) = Some (7205759403792793 / 2 ^ 55)"
proof -
  have "round_half_even (((2001599834386887 / 2 ^ 53) / (2501999792983609 / 2 ^ 51)) / 2 powi (- 3 - 52)) = 7205759403792793"
    by (rule round_half_even_unique) (simp add: power_int_minus)
  then have "round64 ((2001599834386887 / 2 ^ 53) / (2501999792983609 / 2 ^ 51)) = of_int 7205759403792793 * 2 powi (- 3 - 52)"
    by (intro round64_eval) (simp_all add: power_int_minus)
  then have e: "round64 ((2001599834386887 / 2 ^ 53) / (2501999792983609 / 2 ^ 51)) = 7205759403792793 / 2 ^ 55" by (simp add: power_int_minus)
  show ?thesis unfolding rdiv_def using e by simp
qed

lemma polyak_step_18: "rsub round64 1 (2001599834386887 / 2 ^ 54) = 2001599834386887 / 2 ^ 51"
proof -
  have "round_half_even ((1 - (2001599834386887 / 2 ^ 54)) / 2 powi (- 1 - 52))
        = (if even (8006399337547548::int) then 8006399337547548 else 8006399337547548 + 1)"
    by (rule round_half_even_tie) (simp add: power_int_minus)
  then have "round_half_even ((1 - (2001599834386887 / 2 ^ 54)) / 2 powi (- 1 - 52)) = 8006399337547548"
    by simp
  then have "round64 (1 - (2001599834386887 / 2 ^ 54)) = of_int 8006399337547548 * 2 powi (- 1 - 52)"
    by (intro round64_eval) (simp_all add: power_int_minus)
  then have e: "round64 (1 - (2001599834386887 / 2 ^ 54)) = 2001599834386887 / 2 ^ 51" by (simp add: power_int_minus)
  show ?thesis unfolding rsub_def using e by simp
qed

lemma polyak_step_19: "rdiv round64 (2001599834386887 / 2 ^ 51) (2501999792983609 / 2 ^ 51) = Some (7205759403792793 / 2 ^ 53)"
proof -
  have "round_half_even (((2001599834386887 / 2 ^ 51) / (2501999792983609 / 2 ^ 51)) / 2 powi (- 1 - 52)) = 7205759403792793"
    by (rule round_half_even_unique) (simp add: power_int_minus)
  then have "round64 ((2001599834386887 / 2 ^ 51) / (2501999792983609 / 2 ^ 51)) = of_int 7205759403792793 * 2 powi (- 1 - 52)"
    by (intro round64_eval) (simp_all add: power_int_minus)
  then have e: "round64 ((2001599834386887 / 2 ^ 51) / (2501999792983609 / 2 ^ 51)) = 7205759403792793 / 2 ^ 53" by (simp add: power_int_minus)
  show ?thesis unfolding rdiv_def using e by simp
qed

lemma polyak_step_20: "rmul round64 (7205759403792793 / 2 ^ 55) 1 = 7205759403792793 / 2 ^ 55"
proof -
  have e: "round64 ((7205759403792793 / 2 ^ 55) * 1) = 7205759403792793 / 2 ^ 55"
    using round64_dyadic[of "7205759403792793" 55] by simp
  show ?thesis unfolding rmul_def using e by simp
qed

lemma polyak_step_21: "rmul round64 (7205759403792793 / 2 ^ 53) 1 = 7205759403792793 / 2 ^ 53"
proof -
  have e: "round64 ((7205759403792793 / 2 ^ 53) * 1) = 7205759403792793 / 2 ^ 53"
    using round64_dyadic[of "7205759403792793" 53] by simp
  show ?thesis unfolding rmul_def using e by simp
qed

lemma polyak_step_22: "radd round64 (7205759403792793 / 2 ^ 55) (7205759403792793 / 2 ^ 53) = 9007199254740991 / 2 ^ 53"
proof -
  have "round_half_even (((7205759403792793 / 2 ^ 55) + (7205759403792793 / 2 ^ 53)) / 2 powi (- 1 - 52)) = 9007199254740991"
    by (rule round_half_even_unique) (simp add: power_int_minus)
  then have "round64 ((7205759403792793 / 2 ^ 55) + (7205759403792793 / 2 ^ 53)) = of_int 9007199254740991 * 2 powi (- 1 - 52)"
    by (intro round64_eval) (simp_all add: power_int_minus)
  then have e: "round64 ((7205759403792793 / 2 ^ 55) + (7205759403792793 / 2 ^ 53)) = 9007199254740991 / 2 ^ 53" by (simp add: power_int_minus)
  show ?thesis unfolding radd_def using e by simp
qed

lemma polyak_step_23: "rmul round64 1 (9007199254740991 / 2 ^ 53) = 9007199254740991 / 2 ^ 53"
proof -
  have e: "round64 (1 * (9007199254740991 / 2 ^ 53)) = 9007199254740991 / 2 ^ 53"
    using round64_dyadic[of "9007199254740991" 53] by simp
  show ?thesis unfolding rmul_def using e by simp
qed

lemma cyclical_step_1: "radd round64 4 1 = 5"
proof -
  have e: "round64 (4 + 1) = 5"
    using round64_dyadic[of "5" 0] by simp
  show ?thesis unfolding radd_def using e by simp
qed

lemma cyclical_step_2: "rsub round64 4 1 = 3"
proof -
  have e: "round64 (4 - 1) = 3"
    using round64_dyadic[of "3" 0] by simp
  show ?thesis unfolding rsub_def using e by simp
qed

lemma cyclical_step_3: "rdiv round64 5 3 = Some (7505999378950827 / 2 ^ 52)"
proof -
  have "round_half_even ((5 / 3) / 2 powi (0 - 52)) = 7505999378950827"
    by (rule round_half_even_unique) (simp add: power_int_minus)
  then have "round64 (5 / 3) = of_int 7505999378950827 * 2 powi (0 - 52)"
    by (intro round64_eval) (simp_all add: power_int_minus)
  then have e: "round64 (5 / 3) = 7505999378950827 / 2 ^ 52" by (simp add: power_int_minus)
  show ?thesis unfolding rdiv_def using e by simp
qed

lemma cyclical_step_4: "rsub round64 (5 / 2 ^ 1) (5 / 2 ^ 1) = 0"
proof -
  have e: "round64 ((5 / 2 ^ 1) - (5 / 2 ^ 1)) = 0" by simp
  show ?thesis unfolding rsub_def using e by simp
qed

lemma cyclical_step_5: "rdiv round64 0 3 = Some 0"
proof -
  have e: "round64 (0 / 3) = 0" by simp
  show ?thesis unfolding rdiv_def using e by simp
qed

lemma cyclical_step_6: "rsquare round64 (7505999378950827 / 2 ^ 52) = 6254999482459023 / 2 ^ 51"
proof -
  have "round_half_even (((7505999378950827 / 2 ^ 52) * (7505999378950827 / 2 ^ 52)) / 2 powi (1 - 52)) = 6254999482459023"
    by (rule round_half_even_unique) (simp add: power_int_minus)
  then have "round64 ((7505999378950827 / 2 ^ 52) * (7505999378950827 / 2 ^ 52)) = of_int 6254999482459023 * 2 powi (1 - 52)"
    by (intro round64_eval) (simp_all add: power_int_minus)
  then have e: "round64 ((7505999378950827 / 2 ^ 52) * (7505999378950827 / 2 ^ 52)) = 6254999482459023 / 2 ^ 51" by (simp add: power_int_minus)
  show ?thesis unfolding rsquare_def using e by simp
qed

lemma cyclical_step_7: "rsquare round64 0 = 0"
proof -
  have e: "round64 (0 * 0) = 0" by simp
  show ?thesis unfolding rsquare_def using e by simp
qed

lemma cyclical_step_8: "rsub round64 (6254999482459023 / 2 ^ 51) 0 = 6254999482459023 / 2 ^ 51"
proof -
  have e: "round64 ((6254999482459023 / 2 ^ 51) - 0) = 6254999482459023 / 2 ^ 51"
    using round64_dyadic[of "6254999482459023" 51] by simp
  show ?thesis unfolding rsub_def using e by simp
qed

lemma cyclical_step_9: "rsqrt round64 (6254999482459023 / 2 ^ 51) = Some (7505999378950827 / 2 ^ 52)"
proof -
  have "round64 (sqrt (6254999482459023 / 2 ^ 51)) = of_int 7505999378950827 * 2 powi (0 - 52)"
    by (rule round64_sqrt_eval) (simp_all add: power_int_minus power2_eq_square)
  then have e: "round64 (sqrt (6254999482459023 / 2 ^ 51)) = 7505999378950827 / 2 ^ 52" by (simp add: power_int_minus)
  show ?thesis unfolding rsqrt_def using e by simp
qed

lemma cyclical_step_10: "rsub round64 (6254999482459023 / 2 ^ 51) 1 = 4003199668773775 / 2 ^ 51"
proof -
  have e: "round64 ((6254999482459023 / 2 ^ 51) - 1) = 4003199668773775 / 2 ^ 51"
    using round64_dyadic[of "4003199668773775" 51] by simp
  show ?thesis unfolding rsub_def using e by simp
qed

lemma cyclical_step_11: "rsqrt round64 (4003199668773775 / 2 ^ 51) = Some (3002399751580331 / 2 ^ 51)"
proof -
  have "round64 (sqrt (4003199668773775 / 2 ^ 51)) = of_int 6004799503160662 * 2 powi (0 - 52)"
    by (rule round64_sqrt_eval) (simp_all add: power_int_minus power2_eq_square)
  then have e: "round64 (sqrt (4003199668773775 / 2 ^ 51)) = 3002399751580331 / 2 ^ 51" by (simp add: power_int_minus)
  show ?thesis unfolding rsqrt_def using e by simp
qed

lemma cyclical_step_12: "rsub round64 1 0 = 1"
proof -
  have e: "round64 (1 - 0) = 1"
    using round64_dyadic[of "1" 0] by simp
  show ?thesis unfolding rsub_def using e by simp
qed

lemma cyclical_step_13: "rsqrt round64 1 = Some 1"
proof -
  have s: "sqrt 1 = 1" by (rule real_sqrt_unique) (simp_all add: power2_eq_square)
  have f: "round64 1 = 1"
    using round64_dyadic[of "1" 0] by simp
  have e: "round64 (sqrt 1) = 1" unfolding s by (rule f)
  show ?thesis unfolding rsqrt_def using e by simp
qed

lemma cyclical_step_14: "rsub round64 (7505999378950827 / 2 ^ 52) (3002399751580331 / 2 ^ 51) = 1501199875790165 / 2 ^ 52"
proof -
  have e: "round64 ((7505999378950827 / 2 ^ 52) - (3002399751580331 / 2 ^ 51)) = 1501199875790165 / 2 ^ 52"
    using round64_dyadic[of "1501199875790165" 52] by simp
  show ?thesis unfolding rsub_def using e by simp
qed

lemma cyclical_step_15: "rdiv round64 (1501199875790165 / 2 ^ 52) 1 = Some (1501199875790165 / 2 ^ 52)"
proof -
  have e: "round64 ((1501199875790165 / 2 ^ 52) / 1) = 1501199875790165 / 2 ^ 52"
    using round64_dyadic[of "1501199875790165" 52] by simp
  show ?thesis unfolding rdiv_def using e by simp
qed

lemma cyclical_step_16: "rsquare round64 (1501199875790165 / 2 ^ 52) = 8006399337547545 / 2 ^ 56"
proof -
  have "round_half_even (((1501199875790165 / 2 ^ 52) * (1501199875790165 / 2 ^ 52)) / 2 powi (- 4 - 52)) = 8006399337547545"
    by (rule round_half_even_unique) (simp add: power_int_minus)
  then have "round64 ((1501199875790165 / 2 ^ 52) * (1501199875790165 / 2 ^ 52)) = of_int 8006399337547545 * 2 powi (- 4 - 52)"
    by (intro round64_eval) (simp_all add: power_int_minus)
  then have e: "round64 ((1501199875790165 / 2 ^ 52) * (1501199875790165 / 2 ^ 52)) = 8006399337547545 / 2 ^ 56" by (simp add: power_int_minus)
  show ?thesis unfolding rsquare_def using e by simp
qed

lemma cyclical_step_17: "radd round64 1 (8006399337547545 / 2 ^ 56) = 2501999792983609 / 2 ^ 51"
proof -
  have "round_half_even ((1 + (8006399337547545 / 2 ^ 56)) / 2 powi (0 - 52)) = 5003999585967218"
    by (rule round_half_even_unique) (simp add: power_int_minus)
  then have "round64 (1 + (8006399337547545 / 2 ^ 56)) = of_int 5003999585967218 * 2 powi (0 - 52)"
    by (intro round64_eval) (simp_all add: power_int_minus)
  then have e: "round64 (1 + (8006399337547545 / 2 ^ 56)) = 2501999792983609 / 2 ^ 51" by (simp add: power_int_minus)
  show ?thesis unfolding radd_def using e by simp
qed

lemma cyclical_step_18: "rdiv round64 (2501999792983609 / 2 ^ 51) (5 / 2 ^ 1) = Some (8006399337547549 / 2 ^ 54)"
proof -
  have "round_half_even (((2501999792983609 / 2 ^ 51) / (5 / 2 ^ 1)) / 2 powi (- 2 - 52)) = 8006399337547549"
    by (rule round_half_even_unique) (simp add: power_int_minus)
  then have "round64 ((2501999792983609 / 2 ^ 51) / (5 / 2 ^ 1)) = of_int 8006399337547549 * 2 powi (- 2 - 52)"
    by (intro round64_eval) (simp_all add: power_int_minus)
  then have e: "round64 ((2501999792983609 / 2 ^ 51) / (5 / 2 ^ 1)) = 8006399337547549 / 2 ^ 54" by (simp add: power_int_minus)
  show ?thesis unfolding rdiv_def using e by simp
qed

lemma cyclical_step_19: "rmul round64 (8006399337547549 / 2 ^ 54) 0 = 0"
proof -
  have e: "round64 ((8006399337547549 / 2 ^ 54) * 0) = 0" by simp
  show ?thesis unfolding rmul_def using e by simp
qed

lemma cyclical_step_20: "rsub round64 (2501999792983609 / 2 ^ 51) 0 = 2501999792983609 / 2 ^ 51"
proof -
  have e: "round64 ((2501999792983609 / 2 ^ 51) - 0) = 2501999792983609 / 2 ^ 51"
    using round64_dyadic[of "2501999792983609" 51] by simp
  show ?thesis unfolding rsub_def using e by simp
qed

lemma cyclical_step_21: "rmul round64 (2501999792983609 / 2 ^ 51) (2501999792983609 / 2 ^ 51) = 694999942495447 / 2 ^ 49"
proof -
  have "round_half_even (((2501999792983609 / 2 ^ 51) * (2501999792983609 / 2 ^ 51)) / 2 powi (0 - 52)) = 5559999539963576"
    by (rule round_half_even_unique) (simp add: power_int_minus)
  then have "round64 ((2501999792983609 / 2 ^ 51) * (2501999792983609 / 2 ^ 51)) = of_int 5559999539963576 * 2 powi (0 - 52)"
    by (intro round64_eval) (simp_all add: power_int_minus)
  then have e: "round64 ((2501999792983609 / 2 ^ 51) * (2501999792983609 / 2 ^ 51)) = 694999942495447 / 2 ^ 49" by (simp add: power_int_minus)
  show ?thesis unfolding rmul_def using e by simp
qed

lemma cyclical_step_22: "\<bar>(694999942495447 / 2 ^ 49)\<bar> = (694999942495447 / 2 ^ 49 :: real)"
  by simp

lemma cyclical_step_23: "sgn (694999942495447 / 2 ^ 49) = (1 :: real)"
  by simp

lemma cyclical_step_24: "rsqrt round64 (694999942495447 / 2 ^ 49) = Some (2501999792983609 / 2 ^ 51)"
proof -
  have "round64 (sqrt (694999942495447 / 2 ^ 49)) = of_int 5003999585967218 * 2 powi (0 - 52)"
    by (rule round64_sqrt_eval) (simp_all add: power_int_minus power2_eq_square)
  then have e: "round64 (sqrt (694999942495447 / 2 ^ 49)) = 2501999792983609 / 2 ^ 51" by (simp add: power_int_minus)
  show ?thesis unfolding rsqrt_def using e by simp
qed

lemma cyclical_step_25: "rsqrt round64 (8006399337547545 / 2 ^ 56) = Some (1501199875790165 / 2 ^ 52)"
proof -
  have "round64 (sqrt (8006399337547545 / 2 ^ 56)) = of_int 6004799503160660 * 2 powi (- 2 - 52)"
    by (rule round64_sqrt_eval) (simp_all add: power_int_minus power2_eq_square)
  then have e: "round64 (sqrt (8006399337547545 / 2 ^ 56)) = 1501199875790165 / 2 ^ 52" by (simp add: power_int_minus)
  show ?thesis unfolding rsqrt_def using e by simp
qed

lemma cyclical_step_26: "rmul round64 (2501999792983609 / 2 ^ 51) 1 = 2501999792983609 / 2 ^ 51"
proof -
  have e: "round64 ((2501999792983609 / 2 ^ 51) * 1) = 2501999792983609 / 2 ^ 51"
    using round64_dyadic[of "2501999792983609" 51] by simp
  show ?thesis unfolding rmul_def using e by simp
qed

lemma cyclical_step_27: "rmul round64 2 (1501199875790165 / 2 ^ 52) = 1501199875790165 / 2 ^ 51"
proof -
  have e: "round64 (2 * (1501199875790165 / 2 ^ 52)) = 1501199875790165 / 2 ^ 51"
    using round64_dyadic[of "1501199875790165" 51] by simp
  show ?thesis unfolding rmul_def using e by simp
qed

lemma cyclical_step_28: "rdiv round64 (2501999792983609 / 2 ^ 51) (1501199875790165 / 2 ^ 51) = Some (7505999378950829 / 2 ^ 52)"
proof -
  have "round_half_even (((2501999792983609 / 2 ^ 51) / (1501199875790165 / 2 ^ 51)) / 2 powi (0 - 52)) = 7505999378950829"
    by (rule round_half_even_unique) (simp add: power_int_minus)
  then have "round64 ((2501999792983609 / 2 ^ 51) / (1501199875790165 / 2 ^ 51)) = of_int 7505999378950829 * 2 powi (0 - 52)"
    by (intro round64_eval) (simp_all add: power_int_minus)
  then have e: "round64 ((2501999792983609 / 2 ^ 51) / (1501199875790165 / 2 ^ 51)) = 7505999378950829 / 2 ^ 52" by (simp add: power_int_minus)
  show ?thesis unfolding rdiv_def using e by simp
qed

lemma cyclical_step_29: "rhalf round64 0 = 0"
proof -
  have e: "round64 (0 / 2) = 0" by simp
  show ?thesis unfolding rhalf_def using e by simp
qed

lemma cyclical_step_30: "rmul round64 2 (8006399337547545 / 2 ^ 56) = 8006399337547545 / 2 ^ 55"
proof -
  have e: "round64 (2 * (8006399337547545 / 2 ^ 56)) = 8006399337547545 / 2 ^ 55"
    using round64_dyadic[of "8006399337547545" 55] by simp
  show ?thesis unfolding rmul_def using e by simp
qed

lemma cyclical_step_31: "rdiv round64 (8006399337547545 / 2 ^ 55) (2501999792983609 / 2 ^ 51) = Some (3602879701896395 / 2 ^ 54)"
proof -
  have "round_half_even (((8006399337547545 / 2 ^ 55) / (2501999792983609 / 2 ^ 51)) / 2 powi (- 3 - 52)) = 7205759403792790"
    by (rule round_half_even_unique) (simp add: power_int_minus)
  then have "round64 ((8006399337547545 / 2 ^ 55) / (2501999792983609 / 2 ^ 51)) = of_int 7205759403792790 * 2 powi (- 3 - 52)"
    by (intro round64_eval) (simp_all add: power_int_minus)
  then have e: "round64 ((8006399337547545 / 2 ^ 55) / (2501999792983609 / 2 ^ 51)) = 3602879701896395 / 2 ^ 54" by (simp add: power_int_minus)
  show ?thesis unfolding rdiv_def using e by simp
qed

lemma cyclical_step_32: "rsub round64 1 (8006399337547545 / 2 ^ 56) = 8006399337547549 / 2 ^ 53"
proof -
  have "round_half_even ((1 - (8006399337547545 / 2 ^ 56)) / 2 powi (- 1 - 52)) = 8006399337547549"
    by (rule round_half_even_unique) (simp add: power_int_minus)
  then have "round64 (1 - (8006399337547545 / 2 ^ 56)) = of_int 8006399337547549 * 2 powi (- 1 - 52)"
    by (intro round64_eval) (simp_all add: power_int_minus)
  then have e: "round64 (1 - (8006399337547545 / 2 ^ 56)) = 8006399337547549 / 2 ^ 53" by (simp add: power_int_minus)
  show ?thesis unfolding rsub_def using e by simp
qed

lemma cyclical_step_33: "rdiv round64 (8006399337547549 / 2 ^ 53) (2501999792983609 / 2 ^ 51) = Some (3602879701896397 / 2 ^ 52)"
proof -
  have "round_half_even (((8006399337547549 / 2 ^ 53) / (2501999792983609 / 2 ^ 51)) / 2 powi (- 1 - 52)) = 7205759403792794"
    by (rule round_half_even_unique) (simp add: power_int_minus)
  then have "round64 ((8006399337547549 / 2 ^ 53) / (2501999792983609 / 2 ^ 51)) = of_int 7205759403792794 * 2 powi (- 1 - 52)"
    by (intro round64_eval) (simp_all add: power_int_minus)
  then have e: "round64 ((8006399337547549 / 2 ^ 53) / (2501999792983609 / 2 ^ 51)) = 3602879701896397 / 2 ^ 52" by (simp add: power_int_minus)
  show ?thesis unfolding rdiv_def using e by simp
qed

lemma cyclical_step_34: "rmul round64 (3602879701896395 / 2 ^ 54) 1 = 3602879701896395 / 2 ^ 54"
proof -
  have e: "round64 ((3602879701896395 / 2 ^ 54) * 1) = 3602879701896395 / 2 ^ 54"
    using round64_dyadic[of "3602879701896395" 54] by simp
  show ?thesis unfolding rmul_def using e by simp
qed

lemma cyclical_step_35: "rmul round64 (3602879701896397 / 2 ^ 52) 1 = 3602879701896397 / 2 ^ 52"
proof -
  have e: "round64 ((3602879701896397 / 2 ^ 52) * 1) = 3602879701896397 / 2 ^ 52"
    using round64_dyadic[of "3602879701896397" 52] by simp
  show ?thesis unfolding rmul_def using e by simp
qed

lemma cyclical_step_36: "radd round64 (3602879701896395 / 2 ^ 54) (3602879701896397 / 2 ^ 52) = 1"
proof -
  have "round_half_even (((3602879701896395 / 2 ^ 54) + (3602879701896397 / 2 ^ 52)) / 2 powi (- 1 - 52))
        = (if even (9007199254740991::int) then 9007199254740991 else 9007199254740991 + 1)"
    by (rule round_half_even_tie) (simp add: power_int_minus)
  then have "round_half_even (((3602879701896395 / 2 ^ 54) + (3602879701896397 / 2 ^ 52)) / 2 powi (- 1 - 52)) = 9007199254740992"
    by simp
  then have "round64 ((3602879701896395 / 2 ^ 54) + (3602879701896397 / 2 ^ 52)) = of_int 9007199254740992 * 2 powi (- 1 - 52)"
    by (intro round64_eval) (simp_all add: power_int_minus)
  then have e: "round64 ((3602879701896395 / 2 ^ 54) + (3602879701896397 / 2 ^ 52)) = 1" by (simp add: power_int_minus)
  show ?thesis unfolding radd_def using e by simp
qed

lemma cyclical_step_37: "rmul round64 1 1 = 1"
proof -
  have e: "round64 (1 * 1) = 1"
    using round64_dyadic[of "1" 0] by simp
  show ?thesis unfolding rmul_def using e by simp
qed

lemma polyak_at_degree_zero:
  "poly_polyak arith_degree_zero \<lparr>t_glob = 0, mu_glob = 1 / 5, L_glob = 2\<rparr> 0 1 4 0 = Some (9007199254740991 / 2 ^ 53)"
  by (simp only: poly_polyak_def Let_def arith_degree_zero_def arith.select_convs globals.select_convs
      of_int_0 polyak_step_1 polyak_step_2 polyak_step_3 polyak_step_4 polyak_step_5 polyak_step_6 polyak_step_7 polyak_step_8 polyak_step_9 polyak_step_10 polyak_step_11 polyak_step_12 polyak_step_13 polyak_step_14 polyak_step_15 polyak_step_16 polyak_step_17 polyak_step_18 polyak_step_19 polyak_step_20 polyak_step_21 polyak_step_22 polyak_step_23
      Option.bind.bind_lunit simp_thms if_True if_False)

lemma cyclical_at_degree_zero:
  "poly_cyclical arith_degree_zero \<lparr>t_glob = 0, mu_glob = 1 / 5, L_glob = 2\<rparr> 0 1 (5 / 2 ^ 1) (5 / 2 ^ 1) 4 0 = Some 1"
  by (simp only: poly_cyclical_def Let_def arith_degree_zero_def arith.select_convs globals.select_convs
      of_int_0 cyclical_step_1 cyclical_step_2 cyclical_step_3 cyclical_step_4 cyclical_step_5 cyclical_step_6 cyclical_step_7 cyclical_step_8 cyclical_step_9 cyclical_step_10 cyclical_step_11 cyclical_step_12 cyclical_step_13 cyclical_step_14 cyclical_step_15 cyclical_step_16 cyclical_step_17 cyclical_step_18 cyclical_step_19 cyclical_step_20 cyclical_step_21 cyclical_step_22 cyclical_step_23 cyclical_step_24 cyclical_step_25 cyclical_step_26 cyclical_step_27 cyclical_step_28 cyclical_step_29 cyclical_step_30 cyclical_step_31 cyclical_step_32 cyclical_step_33 cyclical_step_34 cyclical_step_35 cyclical_step_36 cyclical_step_37
      Option.bind.bind_lunit simp_thms if_True if_False)


section \<open>The cyclical polynomial at relative gap 0\<close>

lemma third_squared_powr_half: "((1 / 3 :: real)\<^sup>2) powr (1 / 2) = 1 / 3"
  by (simp add: powr_half_sqrt)

lemma poly_odd_degree_values:
  "poly_polyak exact_arith \<lparr>t_glob = 1, mu_glob = 1, L_glob = 4\<rparr> 4 1 4 1 = Some (- (3 / 5))"
  "poly_cyclical exact_arith \<lparr>t_glob = 1, mu_glob = 1, L_glob = 4\<rparr> 4 1 ((1 + 4) / 2) ((1 + 4) / 2) 4 1 = Some (3 / 5)"
proof -
  have q: "(sqrt 4 - sqrt 1) / (sqrt 4 + sqrt 1) = (1 / 3 :: real)" by simp
  have h: "(2 / (sqrt 4 + sqrt 1))\<^sup>2 = (4 / 9 :: real)" by (simp add: power2_eq_square)
  have s: "(1 + (1 / 3)\<^sup>2 - 4 / 9 * 4) / (2 * (1 / 3)) = (- 1 :: real)"
    by (simp add: power2_eq_square)
  have c: "2 * (1 / 3)\<^sup>2 / (1 + (1 / 3)\<^sup>2) = (1 / 5 :: real)"
          "(1 - (1 / 3)\<^sup>2) / (1 + (1 / 3)\<^sup>2) = (4 / 5 :: real)"
    by (simp_all add: power2_eq_square)
  have t: "real_of_int (t_glob \<lparr>t_glob = 1, mu_glob = 1, L_glob = 4\<rparr>) / 2 = 1 / 2" by simp
  have p14: "(1::real) < 4" by simp
  show "poly_polyak exact_arith \<lparr>t_glob = 1, mu_glob = 1, L_glob = 4\<rparr> 4 1 4 1 = Some (- (3 / 5))"
    unfolding poly_polyak_value[OF zero_less_one p14] q h s c t third_squared_powr_half
    by (simp add: power2_eq_square)
  show "poly_cyclical exact_arith \<lparr>t_glob = 1, mu_glob = 1, L_glob = 4\<rparr> 4 1 ((1 + 4) / 2) ((1 + 4) / 2) 4 1 = Some (3 / 5)"
    unfolding poly_cyclical_value[OF zero_less_one p14] q h s c t third_squared_powr_half
    by (simp add: power2_eq_square)
qed





section \<open>What the functions read and write\<close>

text \<open>
  The two assignments of \<^verbatim>\<open>zeta\<close> go into the array that \<^verbatim>\<open>np.zeros_like\<close> has just made:
  the call returns the address of a new array holding the values of \<open>zeta\<close> and leaves every
  array that existed before as it was.
\<close>

lemma select_mask_Cons:
  "select_mask (b # idx) (x # xs) = (if b then x # select_mask idx xs else select_mask idx xs)"
  by (simp add: select_mask_def)

lemma zeta_two_writes:
  "assign_mask (map Not (map P x))
     (assign_mask (map P x) (replicate (length x) z) (map f (select_mask (map P x) x)))
     (map h (select_mask (map Not (map P x)) x))
   = map (\<lambda>xi. if P xi then f xi else h xi) x"
  by (induction x) (simp_all add: select_mask_Cons)

lemma zeta_entry_branches:
  "(if both_positive m h0 h1 (Some x) then root_of_product m h0 h1 (Some x)
    else (map_option uminus \<circ> root_of_product m h0 h1) (Some x)) = zeta_entry g x m h0 h1"
  by (simp add: both_positive_def root_of_product_def zeta_entry_def fdiv_def fsqrt_def)

lemma zeta_store_effect:
  assumes "x_addr < length hp" and "hp ! x_addr = map Some xs"
  shows "zeta_store g hp x_addr m h0 h1 = (length hp, hp @ [zeta g xs m h0 h1])"
proof -
  define x where "x = map Some xs"
  define idx where "idx = map (both_positive m h0 h1) x"
  define zeros :: "real option list" where "zeros = replicate (length x) (Some 0)"
  define A1 where "A1 = assign_mask idx zeros (map (root_of_product m h0 h1) (select_mask idx x))"
  define A2 where "A2 = assign_mask (map Not idx) A1
      (map (map_option uminus \<circ> root_of_product m h0 h1) (select_mask (map Not idx) x))"
  have hx: "hp ! x_addr = x" using assms(2) by (simp add: x_def)
  have r1: "(hp @ [zeros]) ! x_addr = x" using assms(1) hx by (simp add: nth_append)
  have r2: "(hp @ [zeros]) ! length hp = zeros" by simp
  have w1: "(hp @ [zeros])[length hp := A1] = hp @ [A1]" by simp
  have r3: "(hp @ [A1]) ! x_addr = x" using assms(1) hx by (simp add: nth_append)
  have r4: "(hp @ [A1]) ! length hp = A1" by simp
  have w2: "(hp @ [A1])[length hp := A2] = hp @ [A2]" by simp
  have "zeta_store g hp x_addr m h0 h1 = (length hp, hp @ [A2])"
    unfolding zeta_store_def Let_def hx idx_def[symmetric] zeros_def[symmetric] r1 r2
      A1_def[symmetric] w1 r3 r4 A2_def[symmetric] w2 ..
  moreover have "A2 = map (\<lambda>xi. if both_positive m h0 h1 xi then root_of_product m h0 h1 xi
                               else (map_option uminus \<circ> root_of_product m h0 h1) xi) x"
    unfolding A2_def A1_def idx_def zeros_def by (rule zeta_two_writes)
  moreover have "\<dots> = zeta g xs m h0 h1"
    unfolding x_def zeta_def by (simp add: zeta_entry_branches comp_def del: map_option_eq_Some)
  ultimately show ?thesis by simp
qed





section \<open>The residual polynomials at the origin\<close>





section \<open>Inner spectral bounds in binary64\<close>

text \<open>
  With \<open>h\<close> the rounded half of \<open>(1 - R) * (L - mu)\<close>, the two bounds are the roundings of
  \<open>mu + h\<close> and \<open>L - h\<close>. Three roundings lie between \<open>L - mu\<close> and \<open>h\<close>, so \<open>h\<close> can exceed
  \<open>(L - mu) / 2\<close> when \<open>R = 0\<close>; for \<open>R\<close> of at least \<open>2 ^ -50\<close> the factor \<open>1 - R\<close> makes up
  for them.
\<close>

lemma round64_scale_up:
  assumes "0 \<le> x" and "x \<le> y * c" and "0 \<le> c"
  shows "round64 x \<le> y * (c * (1 + 1 / 2 ^ 53))"
proof -
  have "round64 x \<le> x * (1 + 1 / 2 ^ 53)" using assms(1) by (rule round64_upper)
  also have "\<dots> \<le> (y * c) * (1 + 1 / 2 ^ 53)" using assms(2) by (intro mult_right_mono) simp_all
  finally show ?thesis by (simp add: mult.assoc)
qed

lemma safety_margin: "(1 - 1 / 2 ^ 50) * ((1 + 1 / 2 ^ 53) * ((1 + 1 / 2 ^ 53) * (1 + 1 / 2 ^ 53))) \<le> (1::real)"
  by simp

lemma inner_bounds_ordered:
  assumes "mu \<le> L" and "1 / 2 ^ 50 \<le> R" and "R \<le> 1"
  shows "fst (inner_bounds round64 mu L R) \<le> snd (inner_bounds round64 mu L R)"
proof -
  define D where "D = L - mu"
  define d where "d = round64 D"
  define a where "a = round64 (1 - R)"
  define p where "p = round64 (a * d)"
  define h where "h = round64 (p / 2)"
  define E :: real where "E = 1 + 1 / 2 ^ 53"
  define A0 :: real where "A0 = 1 - 1 / 2 ^ 50"
  have D0: "0 \<le> D" using assms(1) by (simp add: D_def)
  have d0: "0 \<le> d" unfolding d_def using D0 by (rule round64_nonneg)
  have dD: "d \<le> D * E" unfolding d_def E_def using D0 by (rule round64_upper)
  have fA: "round64 A0 = A0"
  proof -
    have "round64 (of_int (2 ^ 50 - 1) / 2 ^ 50) = of_int (2 ^ 50 - 1) / 2 ^ 50"
      by (rule round64_dyadic) simp
    then show ?thesis by (simp add: A0_def)
  qed
  have a0: "0 \<le> a" unfolding a_def using assms(3) by (intro round64_nonneg) simp
  have "round64 (1 - R) \<le> round64 A0" using assms(2) by (intro round64_mono) (simp add: A0_def)
  then have aA: "a \<le> A0" by (simp add: a_def fA)
  have A00: "0 \<le> A0" using a0 aA by linarith
  have E0: "0 \<le> E" by (simp add: E_def)
  have ad0: "0 \<le> a * d" using a0 d0 by simp
  have "a * d \<le> A0 * (D * E)" using aA dD a0 d0 A00 by (intro mult_mono) simp_all
  then have ad: "a * d \<le> D * (A0 * E)" by (simp add: mult_ac)
  have p0: "0 \<le> p" unfolding p_def using ad0 by (rule round64_nonneg)
  have pb: "p \<le> D * ((A0 * E) * E)"
    unfolding p_def E_def using ad0 ad[unfolded E_def] A00 by (intro round64_scale_up) simp_all
  have h0: "0 \<le> h" unfolding h_def using p0 by (intro round64_nonneg) simp
  have "p / 2 \<le> (D / 2) * ((A0 * E) * E)" using pb by simp
  then have "h \<le> (D / 2) * (((A0 * E) * E) * E)"
    unfolding h_def E_def using p0 A00 by (intro round64_scale_up) simp_all
  also have "\<dots> = (D / 2) * (A0 * (E * (E * E)))" by (simp add: mult_ac)
  also have "\<dots> \<le> (D / 2) * 1"
    using D0 safety_margin by (intro mult_left_mono) (simp_all add: A0_def E_def)
  finally have hD: "2 * h \<le> D" by simp
  then have "mu + h \<le> L - h" by (simp add: D_def)
  then have "round64 (mu + h) \<le> round64 (L - h)" by (rule round64_mono)
  then show ?thesis
    by (simp add: inner_bounds_def Let_def radd_def rsub_def rmul_def rhalf_def
        h_def p_def a_def d_def D_def)
qed

lemma landscape_bounds_ordered:
  assumes "mu1 \<le> L2" and "0 \<le> R"
  shows "fst (landscape_bounds round64 mu1 L2 R) \<le> snd (landscape_bounds round64 mu1 L2 R)"
proof -
  define q where "q = round64 (round64 (round64 (L2 - mu1) * R) / 2)"
  have "0 \<le> round64 (L2 - mu1)" using assms(1) by (intro round64_nonneg) simp
  then have "0 \<le> round64 (round64 (L2 - mu1) * R)" using assms(2) by (intro round64_nonneg) simp
  then have q: "0 \<le> q" unfolding q_def by (intro round64_nonneg) simp
  have "round64 (round64 (round64 (mu1 + L2) / 2) - q) \<le> round64 (round64 (round64 (mu1 + L2) / 2) + q)"
    using q by (intro round64_mono) simp
  then show ?thesis
    by (simp add: landscape_bounds_def Let_def radd_def rsub_def rmul_def rhalf_def q_def)
qed

lemma mnist_bounds_ordered:
  assumes "mnist_bounds round64 eigs = Some (mu1, L1, mu2, L2)"
    and "round64 L1 = L1" and "round64 (L1 - mu1) \<le> L2 - L1"
  shows "L1 \<le> mu2"
proof -
  have len: "\<not> length eigs < 2" using assms(1) by (auto simp add: mnist_bounds_def)
  have m2: "mu2 = round64 (L2 - round64 (L1 - mu1))"
    using assms(1) len by (auto simp add: mnist_bounds_def Let_def rsub_def)
  have "L1 \<le> L2 - round64 (L1 - mu1)" using assms(3) by simp
  then have "round64 L1 \<le> round64 (L2 - round64 (L1 - mu1))" by (rule round64_mono)
  then show ?thesis using assms(2) m2 by simp
qed


lemma linspace_member:
  assumes "2 \<le> num" and "v \<in> set (linspace r start stop num)"
    and "r (r (stop - start) / real (num - 1)) \<noteq> 0"
  shows "v = stop \<or> (\<exists>k<num - 1. v = r (r (real k * r (r (stop - start) / real (num - 1))) + start))"
proof -
  define F where "F = (\<lambda>k. if k = num - 1 then stop
                 else r (r (real k * r (r (stop - start) / real (num - 1))) + start))"
  have "linspace r start stop num = map F [0..<num]"
    using assms(1,3) by (simp add: linspace_def Let_def F_def radd_def rsub_def rmul_def)
  then obtain k where k: "k < num" and v: "v = F k"
    using assms(2) by auto
  show ?thesis
  proof (cases "k = num - 1")
    case True
    then show ?thesis using v by (simp add: F_def)
  next
    case False
    then have "k < num - 1" using k by simp
    then show ?thesis using v False by (auto simp add: F_def)
  qed
qed

lemma linspace_rising:
  assumes num: "2 \<le> num" and stop: "round64 stop = stop" "stop \<le> 1"
    and a: "a \<le> stop / real (num - 1)" "round64 a = a" "1 / 2 ^ 50 \<le> a"
    and b: "stop / real (num - 1) \<le> b" "round64 b = b" "real (num - 2) * b \<le> 1"
    and v: "v \<in> set (linspace round64 0 stop num)"
  shows "0 \<le> v \<and> v \<le> 1 \<and> (v = 0 \<or> 1 / 2 ^ 50 \<le> v)"
proof -
  define step where "step = round64 (stop / real (num - 1))"
  have sa: "a \<le> step" and sb: "step \<le> b"
    unfolding step_def using round64_between[OF a(1) b(1) a(2) b(2)] by simp_all
  have a0: "0 < a" using a(3) by (rule less_le_trans[rotated]) simp
  have s0: "0 < step" using a0 sa by linarith
  have n1: "1 \<le> real (num - 1)" using num by simp
  have "a * 1 \<le> a * real (num - 1)" using a0 n1 by (intro mult_left_mono) simp_all
  moreover have "a * real (num - 1) \<le> stop" using a(1) n1 by (simp add: field_simps)
  ultimately have stop_a: "a \<le> stop" by simp
  have "round64 (round64 (stop - 0) / real (num - 1)) \<noteq> 0"
    using s0 stop(1) by (simp add: step_def)
  from linspace_member[OF num v this]
  consider "v = stop" | k where "k < num - 1" "v = round64 (round64 (real k * step))"
    using stop(1) by (auto simp add: step_def)
  then show ?thesis
  proof cases
    case 1
    then show ?thesis using stop_a a(3) stop(2) by simp
  next
    case (2 k)
    have v: "v = round64 (real k * step)" using 2(2) by simp
    show ?thesis
    proof (cases "k = 0")
      case True
      then show ?thesis using v by simp
    next
      case False
      then have k1: "1 \<le> real k" by simp
      have k2: "real k \<le> real (num - 2)" using 2(1) by simp
      have "a * 1 \<le> step * real k" using sa k1 a0 by (intro mult_mono) simp_all
      then have lo: "a \<le> real k * step" by (simp add: mult.commute)
      have "real k * step \<le> real (num - 2) * b" using k2 sb s0 by (intro mult_mono) simp_all
      then have hi: "real k * step \<le> 1" using b(3) by linarith
      have "a \<le> v" and "v \<le> 1"
        unfolding v using round64_between[OF lo hi a(2) round64_one] by simp_all
      then show ?thesis using a(3) a0 by simp
    qed
  qed
qed

lemma dyadic_float: "\<bar>n\<bar> < 2 ^ 53 \<Longrightarrow> x = of_int n / 2 ^ k \<Longrightarrow> round64 x = x"
  using round64_dyadic by simp

lemma range_link_rising:
  assumes "v \<in> set (linspace round64 0 (1 / 2) 20)"
  shows "0 \<le> v \<and> v \<le> 1 \<and> (v = 0 \<or> 1 / 2 ^ 50 \<le> v)"
proof (rule linspace_rising[where a = "1 / 64" and b = "1 / 32", OF _ _ _ _ _ _ _ _ _ assms])
  show "round64 (1 / 2) = 1 / 2" by (rule dyadic_float[of 1 _ 1]) simp_all
  show "round64 (1 / 64) = 1 / 64" by (rule dyadic_float[of 1 _ 6]) simp_all
  show "round64 (1 / 32) = 1 / 32" by (rule dyadic_float[of 1 _ 5]) simp_all
qed simp_all

lemma range_robust:
  assumes "v \<in> set (linspace round64 0 1 30)"
  shows "0 \<le> v \<and> v \<le> 1 \<and> (v = 0 \<or> 1 / 2 ^ 50 \<le> v)"
proof (rule linspace_rising[where a = "1 / 32" and b = "9 / 256", OF _ _ _ _ _ _ _ _ _ assms])
  show "round64 (1 / 32) = 1 / 32" by (rule dyadic_float[of 1 _ 5]) simp_all
  show "round64 (9 / 256) = 9 / 256" by (rule dyadic_float[of 9 _ 8]) simp_all
qed simp_all

lemma range_landscape:
  assumes "v \<in> set (linspace round64 0 (3 / 4) 40)"
  shows "0 \<le> v \<and> v \<le> 1 \<and> (v = 0 \<or> 1 / 2 ^ 50 \<le> v)"
proof (rule linspace_rising[where a = "1 / 64" and b = "5 / 256", OF _ _ _ _ _ _ _ _ _ assms])
  show "round64 (3 / 4) = 3 / 4" by (rule dyadic_float[of 3 _ 2]) simp_all
  show "round64 (1 / 64) = 1 / 64" by (rule dyadic_float[of 1 _ 6]) simp_all
  show "round64 (5 / 256) = 5 / 256" by (rule dyadic_float[of 5 _ 8]) simp_all
qed simp_all

lemma range_link_falling:
  assumes "v \<in> set (linspace round64 (1 / 2) 0 20)"
  shows "0 \<le> v \<and> v \<le> 1 \<and> (v = 0 \<or> 1 / 2 ^ 50 \<le> v)"
proof -
  define step where "step = round64 (- (1 / 38))"
  have f_half: "round64 (1 / 2) = 1 / 2" by (rule dyadic_float[of 1 _ 1]) simp_all
  have f_lo: "round64 (- (27 / 1024)) = - (27 / 1024)" by (rule dyadic_float[of "- 27" _ 10]) simp_all
  have f_hi: "round64 (- (1 / 64)) = - (1 / 64)" by (rule dyadic_float[of "- 1" _ 6]) simp_all
  have f_a: "round64 (- (243 / 512)) = - (243 / 512)" by (rule dyadic_float[of "- 243" _ 9]) simp_all
  have f_b: "round64 (13 / 512) = 13 / 512" by (rule dyadic_float[of 13 _ 9]) simp_all
  have s_lo: "- (27 / 1024) \<le> step" and s_hi: "step \<le> - (1 / 64)"
    unfolding step_def using round64_between[OF _ _ f_lo f_hi, of "- (1 / 38)"] by simp_all
  have delta: "round64 (0 - 1 / 2) = - (1 / 2)" using f_half by (simp add: round64_minus)
  have st: "round64 (round64 (0 - 1 / 2) / real (20 - 1)) = step"
    unfolding delta step_def by simp
  have "round64 (round64 (0 - 1 / 2) / real (20 - 1)) \<noteq> 0" unfolding st using s_hi by simp
  from linspace_member[OF _ assms this]
  consider "v = 0" | k where "k < 19" "v = round64 (round64 (real k * step) + 1 / 2)"
    unfolding st by auto
  then show ?thesis
  proof cases
    case 1
    then show ?thesis by simp
  next
    case (2 k)
    have k18: "real k \<le> 18" using 2(1) by simp
    have "real k * (- step) \<le> 18 * (27 / 1024)" using k18 s_lo s_hi by (intro mult_mono) simp_all
    then have lo: "- (243 / 512) \<le> real k * step" by simp
    have "0 \<le> real k * (- step)" using s_hi by (intro mult_nonneg_nonneg) simp_all
    then have hi: "real k * step \<le> 0" by simp
    have p_lo: "- (243 / 512) \<le> round64 (real k * step)" and p_hi: "round64 (real k * step) \<le> 0"
      using round64_between[OF lo hi f_a round64_zero] by simp_all
    have "13 / 512 \<le> round64 (real k * step) + 1 / 2" using p_lo by simp
    moreover have "round64 (real k * step) + 1 / 2 \<le> 1 / 2" using p_hi by simp
    ultimately have "13 / 512 \<le> v" and "v \<le> 1 / 2"
      unfolding 2(2) using round64_between[OF _ _ f_b f_half] by simp_all
    then show ?thesis by simp
  qed
qed

lemma range_heavy_ball:
  assumes "v \<in> set R_heavy_ball"
  shows "0 \<le> v \<and> v \<le> 1 \<and> (v = 0 \<or> 1 / 2 ^ 50 \<le> v)"
proof -
  have f_half: "round64 (1 / 2) = 1 / 2" by (rule dyadic_float[of 1 _ 1]) simp_all
  have "1 / 2 \<le> round64 (9 / 10)" and "round64 (9 / 10) \<le> 1"
    using round64_between[OF _ _ f_half round64_one, of "9 / 10"] by simp_all
  then show ?thesis using assms by (simp add: R_heavy_ball_def)
qed

lemma loop_ranges:
  assumes "v \<in> set (R_heavy_ball @ R_link_function @ R_robust_region @ R_landscape)"
  shows "0 \<le> v \<and> v \<le> 1 \<and> (v = 0 \<or> 1 / 2 ^ 50 \<le> v)"
proof -
  from assms consider "v \<in> set R_heavy_ball" | "v \<in> set (linspace round64 0 (1 / 2) 20)"
    | "v \<in> set (linspace round64 (1 / 2) 0 20)" | "v \<in> set (linspace round64 0 1 30)"
    | "v \<in> set (linspace round64 0 (3 / 4) 40)"
    by (auto simp add: R_link_function_def R_robust_region_def R_landscape_def Let_def)
  then show ?thesis
  proof cases
    case 1
    then show ?thesis by (rule range_heavy_ball)
  next
    case 2
    then show ?thesis by (rule range_link_rising)
  next
    case 3
    then show ?thesis by (rule range_link_falling)
  next
    case 4
    then show ?thesis by (rule range_robust)
  next
    case 5
    then show ?thesis by (rule range_landscape)
  qed
qed

lemma float_fifth: "round64 (1 / 5) = 3602879701896397 / 2 ^ 54"
proof -
  have "round_half_even ((1 / 5) / 2 powi (- 3 - 52)) = 7205759403792794"
    by (rule round_half_even_unique) (simp add: power_int_minus)
  then have "round64 (1 / 5) = of_int 7205759403792794 * 2 powi (- 3 - 52)"
    by (intro round64_eval) (simp_all add: power_int_minus)
  then show ?thesis by (simp add: power_int_minus)
qed

lemma float_one_minus_fifth:
  "round64 (1 - 3602879701896397 / 2 ^ 54) = 7205759403792794 / 2 ^ 53"
proof -
  have "round_half_even ((1 - 3602879701896397 / 2 ^ 54) / 2 powi (- 1 - 52))
        = (if even (7205759403792793::int) then 7205759403792793 else 7205759403792793 + 1)"
    by (rule round_half_even_tie) (simp add: power_int_minus)
  then have "round_half_even ((1 - 3602879701896397 / 2 ^ 54) / 2 powi (- 1 - 52)) = 7205759403792794"
    by simp
  then have "round64 (1 - 3602879701896397 / 2 ^ 54) = of_int 7205759403792794 * 2 powi (- 1 - 52)"
    by (intro round64_eval) (simp_all add: power_int_minus)
  then show ?thesis by (simp add: power_int_minus)
qed

lemma float_fifth_plus_half_rest:
  "round64 (3602879701896397 / 2 ^ 54 + 7205759403792794 / 2 ^ 54) = 5404319552844596 / 2 ^ 53"
proof -
  have "round_half_even ((3602879701896397 / 2 ^ 54 + 7205759403792794 / 2 ^ 54) / 2 powi (- 1 - 52))
        = (if even (5404319552844595::int) then 5404319552844595 else 5404319552844595 + 1)"
    by (rule round_half_even_tie) (simp add: power_int_minus)
  then have "round_half_even ((3602879701896397 / 2 ^ 54 + 7205759403792794 / 2 ^ 54) / 2 powi (- 1 - 52))
        = 5404319552844596"
    by simp
  then have "round64 (3602879701896397 / 2 ^ 54 + 7205759403792794 / 2 ^ 54)
        = of_int 5404319552844596 * 2 powi (- 1 - 52)"
    by (intro round64_eval) (simp_all add: power_int_minus)
  then show ?thesis by (simp add: power_int_minus)
qed

lemma inner_bounds_link_function_first:
  "inner_bounds round64 (round64 (1 / 5)) 1 0 = (5404319552844596 / 2 ^ 53, 5404319552844595 / 2 ^ 53)"
proof -
  have d: "round64 (7205759403792794 / 2 ^ 53) = 7205759403792794 / 2 ^ 53"
    using round64_dyadic[of 7205759403792794 53] by simp
  have h: "round64 (7205759403792794 / 2 ^ 53 / 2) = 7205759403792794 / 2 ^ 54"
    using round64_dyadic[of 7205759403792794 54] by simp
  have m: "round64 (1 - 7205759403792794 / 2 ^ 54) = 5404319552844595 / 2 ^ 53"
    using round64_dyadic[of 5404319552844595 53] by simp
  show ?thesis
    unfolding inner_bounds_def Let_def radd_def rsub_def rmul_def rhalf_def float_fifth
    by (simp only: diff_zero round64_one mult_1 float_one_minus_fifth d h m
        float_fifth_plus_half_rest)
qed

lemma float_tenth: "round64 (1 / 10) = 3602879701896397 / 2 ^ 55"
proof -
  have "round_half_even ((1 / 10) / 2 powi (- 4 - 52)) = 7205759403792794"
    by (rule round_half_even_unique) (simp add: power_int_minus)
  then have "round64 (1 / 10) = of_int 7205759403792794 * 2 powi (- 4 - 52)"
    by (intro round64_eval) (simp_all add: power_int_minus)
  then show ?thesis by (simp add: power_int_minus)
qed

lemma float_two_minus_tenth:
  "round64 (2 - 3602879701896397 / 2 ^ 55) = 8556839292003942 / 2 ^ 52"
proof -
  have "round_half_even ((2 - 3602879701896397 / 2 ^ 55) / 2 powi (0 - 52)) = 8556839292003942"
    by (rule round_half_even_unique) (simp add: power_int_minus)
  then have "round64 (2 - 3602879701896397 / 2 ^ 55) = of_int 8556839292003942 * 2 powi (0 - 52)"
    by (intro round64_eval) (simp_all add: power_int_minus)
  then show ?thesis by (simp add: power_int_minus)
qed

lemma float_tenth_plus_half_rest:
  "round64 (3602879701896397 / 2 ^ 55 + 8556839292003942 / 2 ^ 53) = 4728779608739021 / 2 ^ 52"
proof -
  have "round_half_even ((3602879701896397 / 2 ^ 55 + 8556839292003942 / 2 ^ 53) / 2 powi (0 - 52))
        = 4728779608739021"
    by (rule round_half_even_unique) (simp add: power_int_minus)
  then have "round64 (3602879701896397 / 2 ^ 55 + 8556839292003942 / 2 ^ 53)
        = of_int 4728779608739021 * 2 powi (0 - 52)"
    by (intro round64_eval) (simp_all add: power_int_minus)
  then show ?thesis by (simp add: power_int_minus)
qed

lemma inner_bounds_robust_region_first:
  "inner_bounds round64 (round64 (1 / 10)) 2 0 = (4728779608739021 / 2 ^ 52, 4728779608739021 / 2 ^ 52)"
proof -
  have d: "round64 (8556839292003942 / 2 ^ 52) = 8556839292003942 / 2 ^ 52"
    using round64_dyadic[of 8556839292003942 52] by simp
  have h: "round64 (8556839292003942 / 2 ^ 52 / 2) = 8556839292003942 / 2 ^ 53"
    using round64_dyadic[of 8556839292003942 53] by simp
  have m: "round64 (2 - 8556839292003942 / 2 ^ 53) = 4728779608739021 / 2 ^ 52"
    using round64_dyadic[of 4728779608739021 52] by simp
  show ?thesis
    unfolding inner_bounds_def Let_def radd_def rsub_def rmul_def rhalf_def float_tenth
    by (simp only: diff_zero round64_one mult_1 float_two_minus_tenth d h m
        float_tenth_plus_half_rest)
qed

lemma linspace_first: "2 \<le> num \<Longrightarrow> hd (linspace round64 0 stop num) = 0"
  by (simp add: linspace_def Let_def radd_def rmul_def upt_conv_Cons hd_map)

lemma linspace_last: "2 \<le> num \<Longrightarrow> last (linspace r start stop num) = stop"
  by (simp add: linspace_def Let_def last_map)

lemma linspace_nonempty: "2 \<le> num \<Longrightarrow> linspace r start stop num \<noteq> []"
  by (simp add: linspace_def Let_def)

lemma R_link_function_first: "hd R_link_function = 0"
  using linspace_first[of 20 "1 / 2"] linspace_nonempty[of 20 round64 0 "1 / 2"]
  by (simp add: R_link_function_def)

lemma L_link_constant_last: "last L_link_constant = 1"
  using linspace_last[of 20 round64 2 1] linspace_nonempty[of 20 round64 2 1]
  by (simp add: L_link_constant_def)

lemma zero_in_R_landscape: "0 \<in> set R_landscape"
proof -
  have "hd (linspace round64 0 (3 / 4) 40) \<in> set (linspace round64 0 (3 / 4) 40)"
    by (rule hd_in_set) (simp add: linspace_nonempty)
  then show ?thesis using linspace_first[of 40 "3 / 4"] by (simp add: R_landscape_def Let_def)
qed





section \<open>The cyclical rate against the Polyak rate\<close>

lemma rho_is_float:
  assumes "0 < kappa" and "kappa < 1"
  obtains rho where "rdiv round64 (radd round64 1 kappa) (rsub round64 1 kappa) = Some rho"
    and "1 \<le> rho" and "round64 rho = rho"
proof -
  define num where "num = round64 (1 + kappa)"
  define den where "den = round64 (1 - kappa)"
  have den0: "0 < den" unfolding den_def using assms(2) by (intro round64_pos) simp
  have "round64 (1 - kappa) \<le> round64 1" using assms(1) by (intro round64_mono) simp
  then have den1: "den \<le> 1" by (simp add: den_def)
  have "round64 1 \<le> round64 (1 + kappa)" using assms(1) by (intro round64_mono) simp
  then have num1: "1 \<le> num" by (simp add: num_def)
  have "den \<le> num" using den1 num1 by linarith
  then have "1 \<le> num / den" using den0 by (simp add: le_divide_eq_1_pos)
  then have "round64 1 \<le> round64 (num / den)" by (rule round64_mono)
  then have r1: "1 \<le> round64 (num / den)" by simp
  have "rdiv round64 (radd round64 1 kappa) (rsub round64 1 kappa) = Some (round64 (num / den))"
    using den0 by (simp add: rdiv_def radd_def rsub_def num_def den_def)
  then show thesis using r1 by (rule that) simp
qed

lemma rates_at_zero_gap:
  assumes rho: "1 \<le> rho" and fl: "round64 rho = rho"
  shows "\<exists>v. r_polyak round64 rho = Some v \<and> r_cyclical round64 rho 0 = Some v"
proof -
  define q where "q = round64 (rho * rho)"
  define w where "w = round64 (q - 1)"
  define b where "b = round64 (sqrt w)"
  have "1 * 1 \<le> rho * rho" using rho by (intro mult_mono) simp_all
  then have "round64 1 \<le> round64 (rho * rho)" by (intro round64_mono) simp
  then have q1: "1 \<le> q" by (simp add: q_def)
  have w0: "0 \<le> w" unfolding w_def using q1 by (intro round64_nonneg) simp
  have q0: "\<not> q < 0" using q1 by simp
  have fq: "round64 q = q" by (simp add: q_def)
  have root: "round64 (sqrt q) = rho"
    unfolding q_def using rho fl by (intro sqrt_of_rounded_square) simp_all
  have p: "r_polyak round64 rho = Some (round64 (rho - b))"
    using w0 by (simp add: r_polyak_def rsqrt_def rsub_def rsquare_def q_def[symmetric]
        w_def[symmetric] b_def[symmetric])
  have c: "r_cyclical round64 rho 0 = Some (round64 (rho - b))"
    using w0 q0 by (simp add: r_cyclical_def rsqrt_def rsub_def rsquare_def rdiv_def
        q_def[symmetric] fq root w_def[symmetric] b_def[symmetric])
  show ?thesis using p c by simp
qed

lemma root_chord_bound:
  fixes a u k :: real
  assumes a: "0 \<le> a" and k: "0 \<le> k" and u0: "0 \<le> u" and u1: "u \<le> 1"
    and kk: "k\<^sup>2 = 1 - 2 * a * k"
  shows "sqrt (a\<^sup>2 + u\<^sup>2) \<le> a + k * u"
proof (rule real_le_lsqrt)
  show "0 \<le> a + k * u" using a k u0 by simp
  have "(a + k * u)\<^sup>2 - (a\<^sup>2 + u\<^sup>2) = 2 * a * k * u + (k\<^sup>2 - 1) * u\<^sup>2"
    by (simp add: power2_eq_square algebra_simps)
  also have "\<dots> = 2 * a * k * u + (- (2 * a * k)) * u\<^sup>2" unfolding kk by simp
  also have "\<dots> = (2 * a * k * u) * (1 - u)" by (simp add: power2_eq_square algebra_simps)
  finally have e: "(a + k * u)\<^sup>2 - (a\<^sup>2 + u\<^sup>2) = (2 * a * k * u) * (1 - u)" .
  have "0 \<le> (2 * a * k * u) * (1 - u)"
    using a k u0 u1 by (intro mult_nonneg_nonneg) simp_all
  then show "a\<^sup>2 + u\<^sup>2 \<le> (a + k * u)\<^sup>2" using e by linarith
qed

lemma cyclical_rate_bound:
  fixes rho R :: real
  assumes rho: "1 < rho" and R0: "0 \<le> R" and R1: "R < 1"
  shows "(sqrt (rho\<^sup>2 - R\<^sup>2) - sqrt (rho\<^sup>2 - 1)) / sqrt (1 - R\<^sup>2) \<le> rho - sqrt (rho\<^sup>2 - 1)"
proof -
  define a where "a = sqrt (rho\<^sup>2 - 1)"
  define u where "u = sqrt (1 - R\<^sup>2)"
  define k where "k = rho - a"
  have r2: "1 < rho\<^sup>2" using rho by (simp add: one_less_power)
  have R2: "R\<^sup>2 < 1" using R0 R1 by (simp add: abs_square_less_1)
  have a0: "0 \<le> a" unfolding a_def using r2 by simp
  have a2: "a\<^sup>2 = rho\<^sup>2 - 1" unfolding a_def using r2 by simp
  have u0: "0 < u" unfolding u_def using R2 by simp
  have u2: "u\<^sup>2 = 1 - R\<^sup>2" unfolding u_def using R2 by simp
  have u1: "u \<le> 1"
  proof -
    have "sqrt (1 - R\<^sup>2) \<le> sqrt 1" by (rule real_sqrt_le_mono) simp
    then show ?thesis by (simp add: u_def)
  qed
  have "a\<^sup>2 \<le> rho\<^sup>2" using a2 by simp
  then have "a \<le> rho" using rho a0 by (simp add: power2_le_iff_abs_le)
  then have k0: "0 \<le> k" by (simp add: k_def)
  have kk: "k\<^sup>2 = 1 - 2 * a * k"
  proof -
    have "k\<^sup>2 = rho\<^sup>2 - 2 * a * rho + a\<^sup>2" by (simp add: k_def power2_eq_square algebra_simps)
    also have "\<dots> = 1 - 2 * a * rho + 2 * a\<^sup>2" using a2 by simp
    also have "\<dots> = 1 - 2 * a * k" by (simp add: k_def power2_eq_square algebra_simps)
    finally show ?thesis .
  qed
  have "rho\<^sup>2 - R\<^sup>2 = a\<^sup>2 + u\<^sup>2" using a2 u2 by simp
  then have "sqrt (rho\<^sup>2 - R\<^sup>2) \<le> a + k * u"
    using root_chord_bound[OF a0 k0 less_imp_le[OF u0] u1 kk] by simp
  then have "sqrt (rho\<^sup>2 - R\<^sup>2) - a \<le> k * u" by simp
  then have "(sqrt (rho\<^sup>2 - R\<^sup>2) - a) / u \<le> k" using u0 by (simp add: pos_divide_le_eq)
  then show ?thesis unfolding a_def u_def k_def .
qed

lemma rho_of_kappa:
  fixes kappa :: real
  assumes "0 < kappa" "kappa < 1"
  shows "1 < (1 + kappa) / (1 - kappa)"
  using assms by (simp add: pos_less_divide_eq)

lemma exact_rates_defined:
  fixes rho R :: real
  assumes rho: "1 < rho" and R0: "0 \<le> R" and R1: "R < 1"
  shows "r_polyak (\<lambda>x. x) rho = Some (rho - sqrt (rho\<^sup>2 - 1))"
    and "r_cyclical (\<lambda>x. x) rho R = Some ((sqrt (rho\<^sup>2 - R\<^sup>2) - sqrt (rho\<^sup>2 - 1)) / sqrt (1 - R\<^sup>2))"
proof -
  have r2: "1 < rho\<^sup>2" using rho by (simp add: one_less_power)
  have R2: "R\<^sup>2 < 1" using R0 R1 by (simp add: abs_square_less_1)
  have c: "sqrt (1 - R\<^sup>2) \<noteq> 0" using R2 by simp
  have d: "\<not> rho\<^sup>2 - R\<^sup>2 < 0" using r2 R2 by simp
  have e: "\<not> rho\<^sup>2 - 1 < 0" using r2 by simp
  have f: "\<not> 1 - R\<^sup>2 < 0" using R2 by simp
  show "r_polyak (\<lambda>x. x) rho = Some (rho - sqrt (rho\<^sup>2 - 1))"
    using e by (simp add: r_polyak_def rsqrt_def rsub_def rsquare_def power2_eq_square)
  show "r_cyclical (\<lambda>x. x) rho R = Some ((sqrt (rho\<^sup>2 - R\<^sup>2) - sqrt (rho\<^sup>2 - 1)) / sqrt (1 - R\<^sup>2))"
    using c d e f by (simp add: r_cyclical_def rsqrt_def rsub_def rsquare_def rdiv_def power2_eq_square)
qed

lemma exact_rates_ordered:
  assumes "0 < kappa" and "kappa < 1" and "i < length R" and "0 \<le> R ! i" and "R ! i < 1"
  shows "\<exists>rp rc. entry (fst (cyclical_rate (\<lambda>x. x) g kappa R)) i = Some rp \<and>
                 entry (fst (snd (cyclical_rate (\<lambda>x. x) g kappa R))) i = Some rc \<and> rc \<le> rp"
proof -
  define rho where "rho = (1 + kappa) / (1 - kappa)"
  have rho: "1 < rho" unfolding rho_def using assms(1,2) by (rule rho_of_kappa)
  have Ri: "0 \<le> R ! i" "R ! i < 1" using assms(4,5) by simp_all
  have f: "rdiv (\<lambda>x. x) (radd (\<lambda>x. x) 1 kappa) (rsub (\<lambda>x. x) 1 kappa) = Some rho"
    using assms(2) by (simp add: rdiv_def radd_def rsub_def rho_def)
  have p: "entry (fst (cyclical_rate (\<lambda>x. x) g kappa R)) i = Some (rho - sqrt (rho\<^sup>2 - 1))"
    using assms(3) by (simp add: cyclical_rate_def Let_def f exact_rates_defined(1)[OF rho Ri])
  have c: "entry (fst (snd (cyclical_rate (\<lambda>x. x) g kappa R))) i
           = Some ((sqrt (rho\<^sup>2 - (R ! i)\<^sup>2) - sqrt (rho\<^sup>2 - 1)) / sqrt (1 - (R ! i)\<^sup>2))"
    using assms(3) by (simp add: cyclical_rate_def Let_def f exact_rates_defined(2)[OF rho Ri])
  have le: "(sqrt (rho\<^sup>2 - (R ! i)\<^sup>2) - sqrt (rho\<^sup>2 - 1)) / sqrt (1 - (R ! i)\<^sup>2) \<le> rho - sqrt (rho\<^sup>2 - 1)"
    using rho Ri by (rule cyclical_rate_bound)
  show ?thesis using p c le by blast
qed

lemma rounded_rates_equal:
  assumes "0 < kappa" and "kappa < 1" and "i < length R" and "R ! i = 0"
  shows "\<exists>v. entry (fst (cyclical_rate round64 g kappa R)) i = Some v \<and>
             entry (fst (snd (cyclical_rate round64 g kappa R))) i = Some v"
proof -
  obtain rho where f: "rdiv round64 (radd round64 1 kappa) (rsub round64 1 kappa) = Some rho"
    and rho: "1 \<le> rho" and fl: "round64 rho = rho"
    using rho_is_float[OF assms(1,2)] by blast
  obtain v where p: "r_polyak round64 rho = Some v" and c: "r_cyclical round64 rho 0 = Some v"
    using rates_at_zero_gap[OF rho fl] by blast
  have "entry (fst (cyclical_rate round64 g kappa R)) i = Some v"
    using assms(3) by (simp add: cyclical_rate_def Let_def f p)
  moreover have "entry (fst (snd (cyclical_rate round64 g kappa R))) i = Some v"
    using assms(3,4) by (simp add: cyclical_rate_def Let_def f c)
  ultimately show ?thesis by blast
qed

lemma float_root_eight: "round64 (sqrt 8) = 6369051672525773 / 2 ^ 51"
proof -
  have "round64 (sqrt 8) = of_int 6369051672525773 * 2 powi (1 - 52)"
    by (rule round64_sqrt_eval) (simp_all add: power_int_minus power2_eq_square)
  then show ?thesis by (simp add: power_int_minus)
qed

lemma float_nine_minus: "round64 (9 - 1 / 2 ^ 52) = 9"
proof -
  have "round_half_even ((9 - 1 / 2 ^ 52) / 2 powi (3 - 52)) = 5066549580791808"
    by (rule round_half_even_unique) (simp add: power_int_minus)
  then have "round64 (9 - 1 / 2 ^ 52) = of_int 5066549580791808 * 2 powi (3 - 52)"
    by (intro round64_eval) (simp_all add: power_int_minus)
  then show ?thesis by (simp add: power_int_minus)
qed

lemma float_root_below_one: "round64 (sqrt (4503599627370495 / 2 ^ 52)) = 9007199254740991 / 2 ^ 53"
proof -
  have "round64 (sqrt (4503599627370495 / 2 ^ 52)) = of_int 9007199254740991 * 2 powi (- 1 - 52)"
    by (rule round64_sqrt_eval) (simp_all add: power_int_minus power2_eq_square)
  then show ?thesis by (simp add: power_int_minus)
qed

lemma float_rate_quotient:
  "round64 (386347768529971 / 2 ^ 51 / (9007199254740991 / 2 ^ 53)) = 6181564296479537 / 2 ^ 55"
proof -
  have "round_half_even (386347768529971 / 2 ^ 51 / (9007199254740991 / 2 ^ 53) / 2 powi (- 3 - 52))
        = 6181564296479537"
    by (rule round_half_even_unique) (simp add: power_int_minus)
  then have "round64 (386347768529971 / 2 ^ 51 / (9007199254740991 / 2 ^ 53))
        = of_int 6181564296479537 * 2 powi (- 3 - 52)"
    by (intro round64_eval) (simp_all add: power_int_minus)
  then show ?thesis by (simp add: power_int_minus)
qed

lemma rho_at_half:
  "rdiv round64 (radd round64 1 (1 / 2)) (rsub round64 1 (1 / 2)) = Some 3"
proof -
  have a: "round64 (3 / 2) = 3 / 2" using round64_dyadic[of 3 1] by simp
  have b: "round64 (1 / 2) = 1 / 2" using round64_dyadic[of 1 1] by simp
  have c: "round64 3 = 3" using round64_dyadic[of 3 0] by simp
  show ?thesis by (simp add: rdiv_def radd_def rsub_def a b c)
qed

lemma rates_at_small_gap:
  "r_polyak round64 3 = Some (386347768529971 / 2 ^ 51)"
  "r_cyclical round64 3 (1 / 2 ^ 26) = Some (6181564296479537 / 2 ^ 55)"
proof -
  have f9: "round64 9 = 9" using round64_dyadic[of 9 0] by simp
  have f8: "round64 8 = 8" using round64_dyadic[of 8 0] by simp
  have f3: "round64 3 = 3" using round64_dyadic[of 3 0] by simp
  have fR: "round64 (1 / 2 ^ 52) = 1 / 2 ^ 52" using round64_dyadic[of 1 52] by simp
  have fc: "round64 (1 - 1 / 2 ^ 52) = 4503599627370495 / 2 ^ 52"
    using round64_dyadic[of 4503599627370495 52] by simp
  have s9: "sqrt 9 = 3" by (rule real_sqrt_unique) simp_all
  have fd: "round64 (3 - 6369051672525773 / 2 ^ 51) = 386347768529971 / 2 ^ 51"
    using round64_dyadic[of 386347768529971 51] by simp
  have sq: "(1 / 2 ^ 26) * (1 / 2 ^ 26) = (1 / 2 ^ 52 :: real)" by simp
  have m: "(3::real) * 3 = 9" "(9::real) - 1 = 8" by simp_all
  have n: "((8::real) < 0) = False" "((9::real) < 0) = False"
    "((4503599627370495 / 2 ^ 52 :: real) < 0) = False"
    "((9007199254740991 / 2 ^ 53 :: real) = 0) = False" by simp_all
  show "r_polyak round64 3 = Some (386347768529971 / 2 ^ 51)"
    unfolding r_polyak_def rsqrt_def rsub_def rsquare_def
    by (simp only: m n f9 f8 float_root_eight fd if_False Option.bind.bind_lunit)
  show "r_cyclical round64 3 (1 / 2 ^ 26) = Some (6181564296479537 / 2 ^ 55)"
    unfolding r_cyclical_def rsqrt_def rsub_def rsquare_def rdiv_def sq
    by (simp only: m n fR f9 f8 fc float_nine_minus s9 f3 float_root_eight float_root_below_one fd
        float_rate_quotient if_False Option.bind.bind_lunit)
qed





section \<open>Where \<open>zeta\<close> has a value\<close>

lemma zeta_entry_value:
  assumes "0 < m"
  shows "zeta_entry g x m h0 h1 =
         (if (1 + m - h0 * x) * (1 + m - h1 * x) < 0 then None
          else Some (if 0 < 1 + m - h0 * x \<and> 0 < 1 + m - h1 * x
                     then sqrt ((1 + m - h0 * x) * (1 + m - h1 * x) / (4 * m))
                     else - sqrt ((1 + m - h0 * x) * (1 + m - h1 * x) / (4 * m))))"
proof -
  have "((1 + m - h0 * x) * (1 + m - h1 * x) / (4 * m) < 0) = ((1 + m - h0 * x) * (1 + m - h1 * x) < 0)"
    using assms by (simp add: divide_less_0_iff)
  then show ?thesis using assms by (simp add: zeta_entry_def fdiv_def fsqrt_def)
qed

lemma negative_product_exists:
  fixes c h0 h1 :: real
  assumes c: "0 < c" and ne: "h0 \<noteq> h1"
  shows "\<exists>x. (c - h0 * x) * (c - h1 * x) < 0"
proof (cases "0 < h0 * h1")
  case True
  then have h0: "h0 \<noteq> 0" and h1: "h1 \<noteq> 0" by auto
  define x where "x = c * (h0 + h1) / (2 * h0 * h1)"
  have a: "c - h0 * x = c * (h1 - h0) / (2 * h1)" using h0 h1 by (simp add: x_def field_simps)
  have b: "c - h1 * x = - (c * (h1 - h0)) / (2 * h0)" using h0 h1 by (simp add: x_def field_simps)
  have "(c - h0 * x) * (c - h1 * x) = - ((c * (h1 - h0))\<^sup>2 / (4 * (h0 * h1)))"
    unfolding a b by (simp add: power2_eq_square)
  moreover have "0 < (c * (h1 - h0))\<^sup>2" using c ne by simp
  ultimately have "(c - h0 * x) * (c - h1 * x) < 0" using True by simp
  then show ?thesis ..
next
  case False
  then have le: "h0 * h1 \<le> 0" by simp
  show ?thesis
  proof (cases "h1 = 0")
    case True
    then have h0: "h0 \<noteq> 0" using ne by simp
    have "(c - h0 * (2 * c / h0)) * (c - h1 * (2 * c / h0)) = - (c * c)" using h0 True by simp
    then have "(c - h0 * (2 * c / h0)) * (c - h1 * (2 * c / h0)) < 0" using c by simp
    then show ?thesis ..
  next
    case h1: False
    have q: "h0 / h1 \<le> 0" using le h1 by (simp add: divide_le_0_iff mult_le_0_iff) 
    have b: "c - h1 * (2 * c / h1) = - c" using h1 by simp
    have "c - h0 * (2 * c / h1) = c - 2 * c * (h0 / h1)" by simp
    moreover have "2 * c * (h0 / h1) \<le> 0"
    proof (rule mult_nonneg_nonpos)
      show "0 \<le> 2 * c" using c by simp
      show "h0 / h1 \<le> 0" by (rule q)
    qed
    ultimately have a: "0 < c - h0 * (2 * c / h1)" using c by linarith
    have "(c - h0 * (2 * c / h1)) * (c - h1 * (2 * c / h1)) < 0"
      unfolding b using a c by (simp add: mult_less_0_iff)
    then show ?thesis ..
  qed
qed





section \<open>The two heavy-ball loops\<close>

text \<open>
  The theorems of this section are stated for \<open>0 < mu < L\<close> and \<open>0 \<le> R < 1\<close>, the range in
  which every division and square root of the two loops has a real value.
\<close>

lemma momentum_body_update:
  "momentum_body H L mu h m s i =
     \<lparr>xt = momentum_update H L mu h m i (xt s) (xt_old s), xt_old = xt s,
      all_iterates = (all_iterates s)[i := xt s]\<rparr>"
  by (simp add: momentum_body_def momentum_update_def Let_def)

lemma cyclical_body_update:
  "cyclical_body H L mu L1 mu2 m s i =
     \<lparr>xt = cyclical_update H L mu L1 mu2 m i (xt s) (xt_old s), xt_old = xt s,
      all_iterates = (all_iterates s)[i := xt s]\<rparr>"
proof (cases "even i")
  case True
  then have "i mod 2 = 0" by presburger
  then show ?thesis using True by (simp add: cyclical_body_def cyclical_update_def Let_def)
next
  case False
  then have "i mod 2 = 1" by presburger
  then show ?thesis using False by (auto simp add: cyclical_body_def cyclical_update_def Let_def)
qed

lemma store_next:
  assumes "n < N"
  shows "(map f [0..<n] @ replicate (N - n) z)[n := f n] = map f [0..<Suc n] @ replicate (N - Suc n) z"
proof -
  have "N - n = Suc (N - Suc n)" using assms by simp
  then have "(map f [0..<n] @ replicate (N - n) z)[n := f n]
             = (map f [0..<n] @ (z # replicate (N - Suc n) z))[n := f n]"
    by simp
  also have "\<dots> = map f [0..<n] @ (f n # replicate (N - Suc n) z)"
    by (simp add: list_update_append)
  finally show ?thesis by simp
qed

lemma loop_trajectory:
  assumes body: "\<And>s i. body s i =
      \<lparr>xt = F i (xt s) (xt_old s), xt_old = xt s, all_iterates = (all_iterates s)[i := xt s]\<rparr>"
  shows "n \<le> N \<Longrightarrow> foldl body (init_state x0 N) [0..<n] =
      \<lparr>xt = fst (trajectory F x0 n), xt_old = snd (trajectory F x0 n),
       all_iterates = map (\<lambda>k. fst (trajectory F x0 k)) [0..<n] @ replicate (N - n) (0, 0)\<rparr>"
proof (induction n)
  case 0
  show ?case by (simp add: init_state_def)
next
  case (Suc n)
  then have n: "n < N" by simp
  have "foldl body (init_state x0 N) [0..<Suc n] = body (foldl body (init_state x0 N) [0..<n]) n"
    by simp
  also have "\<dots> = body \<lparr>xt = fst (trajectory F x0 n), xt_old = snd (trajectory F x0 n),
       all_iterates = map (\<lambda>k. fst (trajectory F x0 k)) [0..<n] @ replicate (N - n) (0, 0)\<rparr> n"
    using Suc.IH n by simp
  also have "\<dots> = \<lparr>xt = fst (trajectory F x0 (Suc n)), xt_old = snd (trajectory F x0 (Suc n)),
       all_iterates = map (\<lambda>k. fst (trajectory F x0 k)) [0..<Suc n] @ replicate (N - Suc n) (0, 0)\<rparr>"
    unfolding body using store_next[OF n, of "\<lambda>k. fst (trajectory F x0 k)" "(0, 0)"] by simp
  finally show ?case .
qed

lemma loop_iterates:
  assumes body: "\<And>s i. body s i =
      \<lparr>xt = F i (xt s) (xt_old s), xt_old = xt s, all_iterates = (all_iterates s)[i := xt s]\<rparr>"
  shows "all_iterates (foldl body (init_state x0 N) [0..<N]) = map (\<lambda>k. fst (trajectory F x0 k)) [0..<N]"
  using loop_trajectory[of body F N N x0, OF body] by simp

lemma momentum_iterates:
  "all_iterates_momentum H x_init L mu N =
   map (\<lambda>k. fst (trajectory (momentum_update H L mu (polyak_h L mu) (polyak_m L mu)) x_init k)) [0..<N]"
  unfolding all_iterates_momentum_def Let_def
  by (rule loop_iterates) (rule momentum_body_update)

lemma cyclical_iterates:
  "all_iterates_cyclical H x_init L mu R N =
   map (\<lambda>k. fst (trajectory (cyclical_update H L mu (L1_of mu L R) (mu2_of mu L R) (cyclical_m L mu R)) x_init k)) [0..<N]"
  unfolding all_iterates_cyclical_def Let_def
  by (rule loop_iterates) (rule cyclical_body_update)

lemma trajectory_two_term:
  "fst (trajectory F x0 (Suc (Suc n))) = F (Suc n) (fst (trajectory F x0 (Suc n))) (fst (trajectory F x0 n))"
  by simp

text \<open>
  Claim C7. In the Polyak loop the pass \<open>i = 0\<close> takes the plain gradient step with step size
  \<open>2 / (L + mu)\<close> and no momentum term, and every later pass takes the two-term update
  \<open>x - h * (H @ x) + m * (x - x_old)\<close> with the same \<open>h\<close> and \<open>m\<close>. The stored array has
  \<open>max_iter\<close> rows, starts with \<open>x_init\<close>, and each row after the second is the two-term update
  of the two rows before it.
\<close>

theorem polyak_loop_updates:
  assumes "0 < mu" and "mu < L" and "1 \<le> i" and "i < max_iter"
  shows "let h = (2 / (sqrt L + sqrt mu))\<^sup>2;
             m = ((sqrt L - sqrt mu) / (sqrt L + sqrt mu))\<^sup>2;
             xs = all_iterates_momentum H x_init L mu max_iter
         in xt (momentum_body H L mu h m s i)
              = vadd (vsub (xt s) (smul h (matvec H (xt s)))) (smul m (vsub (xt s) (xt_old s))) \<and>
            xt (momentum_body H L mu h m s 0) = vsub (xt s) (smul (2 / (L + mu)) (matvec H (xt s))) \<and>
            length xs = max_iter \<and>
            xs ! 0 = x_init \<and>
            xs ! 1 = vsub x_init (smul (2 / (L + mu)) (matvec H x_init)) \<and>
            (i + 1 < max_iter \<longrightarrow>
               xs ! (i + 1) = vadd (vsub (xs ! i) (smul h (matvec H (xs ! i))))
                                   (smul m (vsub (xs ! i) (xs ! (i - 1)))))"
proof -
  obtain j where i: "i = Suc j" using assms(3) by (cases i) simp_all
  have b: "xt (momentum_body H L mu (polyak_h L mu) (polyak_m L mu) s i)
           = vadd (vsub (xt s) (smul (polyak_h L mu) (matvec H (xt s)))) (smul (polyak_m L mu) (vsub (xt s) (xt_old s)))"
    using i by (simp add: momentum_body_update momentum_update_def)
  have b0: "xt (momentum_body H L mu (polyak_h L mu) (polyak_m L mu) s 0) = vsub (xt s) (smul (2 / (L + mu)) (matvec H (xt s)))"
    by (simp add: momentum_body_update momentum_update_def)
  have len: "length (all_iterates_momentum H x_init L mu max_iter) = max_iter"
    by (simp add: momentum_iterates)
  have x0: "all_iterates_momentum H x_init L mu max_iter ! 0 = x_init"
    using assms(4) by (simp add: momentum_iterates)
  have x1: "all_iterates_momentum H x_init L mu max_iter ! 1 = vsub x_init (smul (2 / (L + mu)) (matvec H x_init))"
    using assms(4) i by (simp add: momentum_iterates momentum_update_def)
  have st: "i + 1 < max_iter \<longrightarrow>
        all_iterates_momentum H x_init L mu max_iter ! (i + 1)
        = vadd (vsub (all_iterates_momentum H x_init L mu max_iter ! i)
                     (smul (polyak_h L mu) (matvec H (all_iterates_momentum H x_init L mu max_iter ! i))))
               (smul (polyak_m L mu) (vsub (all_iterates_momentum H x_init L mu max_iter ! i)
                                           (all_iterates_momentum H x_init L mu max_iter ! (i - 1))))"
  proof
    assume lt: "i + 1 < max_iter"
    then have "j < max_iter" "Suc j < max_iter" "Suc (Suc j) < max_iter" using i by simp_all
    then show "all_iterates_momentum H x_init L mu max_iter ! (i + 1)
        = vadd (vsub (all_iterates_momentum H x_init L mu max_iter ! i)
                     (smul (polyak_h L mu) (matvec H (all_iterates_momentum H x_init L mu max_iter ! i))))
               (smul (polyak_m L mu) (vsub (all_iterates_momentum H x_init L mu max_iter ! i)
                                           (all_iterates_momentum H x_init L mu max_iter ! (i - 1))))"
      unfolding i momentum_iterates
      by (simp add: momentum_update_def del: trajectory.simps add: trajectory_two_term)
  qed
  show ?thesis
    unfolding Let_def using b b0 len x0 x1 st by (simp only: polyak_h_def polyak_m_def simp_thms)
qed

theorem polyak_loop_updates_witness:
  "let h = (2 / (sqrt 2 + sqrt (1 / 5)))\<^sup>2;
       m = ((sqrt 2 - sqrt (1 / 5)) / (sqrt 2 + sqrt (1 / 5)))\<^sup>2;
       xs = all_iterates_momentum H_cell x_init_cell 2 (1 / 5) 10
   in length xs = 10 \<and>
      xs ! 0 = x_init_cell \<and>
      xs ! 1 = vsub x_init_cell (smul (2 / (2 + 1 / 5)) (matvec H_cell x_init_cell)) \<and>
      xs ! 2 = vadd (vsub (xs ! 1) (smul h (matvec H_cell (xs ! 1)))) (smul m (vsub (xs ! 1) (xs ! 0)))"
  using polyak_loop_updates[of "1 / 5" 2 1 10 H_cell x_init_cell "init_state x_init_cell 10"]
  by (auto simp add: Let_def numeral_2_eq_2)

text \<open>
  Claim C5. In the cyclical loop every pass \<open>i \<ge> 1\<close> takes the two-term update with the step
  size \<open>(1 + m) / L1\<close> when \<open>i\<close> is even and \<open>(1 + m) / mu2\<close> when \<open>i\<close> is odd, and with the
  same momentum \<open>m\<close>; the rows of the stored array follow the same rule.
\<close>

theorem cyclical_loop_step_sizes:
  assumes "0 < mu" and "mu < L" and "0 \<le> R" and "R < 1" and "1 \<le> i" and "i < max_iter"
  shows "let L1 = L1_of mu L R;
             mu2 = mu2_of mu L R;
             m = cyclical_m L mu R;
             ht = (1 + m) / (if even i then L1 else mu2);
             xs = all_iterates_cyclical H x_init L mu R max_iter
         in xt (cyclical_body H L mu L1 mu2 m s i)
              = vadd (vsub (xt s) (smul ht (matvec H (xt s)))) (smul m (vsub (xt s) (xt_old s))) \<and>
            length xs = max_iter \<and>
            (i + 1 < max_iter \<longrightarrow>
               xs ! (i + 1) = vadd (vsub (xs ! i) (smul ht (matvec H (xs ! i))))
                                   (smul m (vsub (xs ! i) (xs ! (i - 1)))))"
proof -
  obtain j where i: "i = Suc j" using assms(5) by (cases i) simp_all
  define F where "F = cyclical_update H L mu (L1_of mu L R) (mu2_of mu L R) (cyclical_m L mu R)"
  have b: "xt (cyclical_body H L mu (L1_of mu L R) (mu2_of mu L R) (cyclical_m L mu R) s i)
           = vadd (vsub (xt s) (smul ((1 + cyclical_m L mu R) / (if even i then L1_of mu L R else mu2_of mu L R)) (matvec H (xt s))))
                  (smul (cyclical_m L mu R) (vsub (xt s) (xt_old s)))"
    using i by (simp add: cyclical_body_update cyclical_update_def)
  have len: "length (all_iterates_cyclical H x_init L mu R max_iter) = max_iter"
    by (simp add: cyclical_iterates)
  have st: "i + 1 < max_iter \<longrightarrow>
        all_iterates_cyclical H x_init L mu R max_iter ! (i + 1)
        = vadd (vsub (all_iterates_cyclical H x_init L mu R max_iter ! i)
                     (smul ((1 + cyclical_m L mu R) / (if even i then L1_of mu L R else mu2_of mu L R))
                           (matvec H (all_iterates_cyclical H x_init L mu R max_iter ! i))))
               (smul (cyclical_m L mu R) (vsub (all_iterates_cyclical H x_init L mu R max_iter ! i)
                                               (all_iterates_cyclical H x_init L mu R max_iter ! (i - 1))))"
  proof
    assume lt: "i + 1 < max_iter"
    then have lts: "j < max_iter" "Suc j < max_iter" "Suc (Suc j) < max_iter" using i by simp_all
    have "all_iterates_cyclical H x_init L mu R max_iter ! (i + 1) = fst (trajectory F x_init (Suc (Suc j)))"
      using lts by (simp add: cyclical_iterates F_def i del: trajectory.simps)
    also have "\<dots> = F (Suc j) (fst (trajectory F x_init (Suc j))) (fst (trajectory F x_init j))"
      by (rule trajectory_two_term)
    also have "fst (trajectory F x_init (Suc j)) = all_iterates_cyclical H x_init L mu R max_iter ! i"
      using lts by (simp add: cyclical_iterates F_def i del: trajectory.simps)
    also have "fst (trajectory F x_init j) = all_iterates_cyclical H x_init L mu R max_iter ! (i - 1)"
      using lts by (simp add: cyclical_iterates F_def i del: trajectory.simps)
    finally show "all_iterates_cyclical H x_init L mu R max_iter ! (i + 1)
        = vadd (vsub (all_iterates_cyclical H x_init L mu R max_iter ! i)
                     (smul ((1 + cyclical_m L mu R) / (if even i then L1_of mu L R else mu2_of mu L R))
                           (matvec H (all_iterates_cyclical H x_init L mu R max_iter ! i))))
               (smul (cyclical_m L mu R) (vsub (all_iterates_cyclical H x_init L mu R max_iter ! i)
                                               (all_iterates_cyclical H x_init L mu R max_iter ! (i - 1))))"
      unfolding F_def cyclical_update_def i[symmetric] using i by simp
  qed
  show ?thesis
    unfolding Let_def using b len st by (simp only: simp_thms)
qed

theorem cyclical_loop_step_sizes_witness:
  "let L1 = L1_of (1 / 5) 2 (9 / 10);
       mu2 = mu2_of (1 / 5) 2 (9 / 10);
       m = cyclical_m 2 (1 / 5) (9 / 10);
       xs = all_iterates_cyclical H_cell x_init_cell 2 (1 / 5) (9 / 10) 10
   in length xs = 10 \<and>
      xs ! 2 = vadd (vsub (xs ! 1) (smul ((1 + m) / mu2) (matvec H_cell (xs ! 1)))) (smul m (vsub (xs ! 1) (xs ! 0))) \<and>
      xs ! 3 = vadd (vsub (xs ! 2) (smul ((1 + m) / L1) (matvec H_cell (xs ! 2)))) (smul m (vsub (xs ! 2) (xs ! 1)))"
  using cyclical_loop_step_sizes[of "1 / 5" 2 "9 / 10" 1 10 H_cell x_init_cell "init_state x_init_cell 10"]
        cyclical_loop_step_sizes[of "1 / 5" 2 "9 / 10" 2 10 H_cell x_init_cell "init_state x_init_cell 10"]
  by (auto simp add: Let_def numeral_2_eq_2 numeral_3_eq_3)

text \<open>
  Claim C9. The two trajectories agree on their first two rows: both start at \<open>x_init\<close> and
  both take the step \<open>x_init - (2 / (L + mu)) * (H @ x_init)\<close> at \<open>i = 0\<close>. The second row
  exists when \<open>max_iter\<close> is at least 2; the cell has \<open>max_iter = 10\<close>.
\<close>

theorem first_two_iterates_agree:
  assumes "0 < mu" and "mu < L" and "0 \<le> R" and "R < 1" and "2 \<le> max_iter"
  shows "all_iterates_momentum H x_init L mu max_iter ! 0 = x_init \<and>
         all_iterates_cyclical H x_init L mu R max_iter ! 0 = x_init \<and>
         all_iterates_momentum H x_init L mu max_iter ! 1 = vsub x_init (smul (2 / (L + mu)) (matvec H x_init)) \<and>
         all_iterates_cyclical H x_init L mu R max_iter ! 1 = vsub x_init (smul (2 / (L + mu)) (matvec H x_init))"
  using assms(5)
  by (simp add: momentum_iterates cyclical_iterates momentum_update_def cyclical_update_def)

theorem first_two_iterates_agree_witness:
  "all_iterates_momentum H_cell x_init_cell 2 (1 / 5) 10 ! 0 = x_init_cell \<and>
   all_iterates_cyclical H_cell x_init_cell 2 (1 / 5) (9 / 10) 10 ! 0 = x_init_cell \<and>
   all_iterates_momentum H_cell x_init_cell 2 (1 / 5) 10 ! 1 = (- (27 / 22), 45 / 22) \<and>
   all_iterates_cyclical H_cell x_init_cell 2 (1 / 5) (9 / 10) 10 ! 1 = (- (27 / 22), 45 / 22)"
  using first_two_iterates_agree[of "1 / 5" 2 "9 / 10" 10 H_cell x_init_cell]
  by (simp add: H_cell_def x_init_cell_def vsub_def smul_def matvec_def)


section \<open>Frame file names\<close>

lemma decimal_digit: "n < 10 \<Longrightarrow> decimal n = [digit_char n]"
  by simp

lemma decimal_two_digits:
  assumes "10 \<le> n" and "n < 100"
  shows "decimal n = [digit_char (n div 10), digit_char (n mod 10)]"
proof -
  have "n div 10 < 10" using assms(2) by simp
  then have "decimal (n div 10) = [digit_char (n div 10)]" by (rule decimal_digit)
  moreover have "decimal n = decimal (n div 10) @ [digit_char (n mod 10)]"
    using assms(1) by (subst decimal.simps) simp
  ultimately show ?thesis by simp
qed

lemma fmt_02d_two_digits:
  assumes "i < 100"
  shows "fmt_02d (int i) = [digit_char (i div 10), digit_char (i mod 10)]"
proof (cases "i < 10")
  case True
  then have "decimal i = [digit_char i]" by (rule decimal_digit)
  moreover have "digit_char (i div 10) = CHR ''0''" using True by (simp add: digit_char_def)
  ultimately show ?thesis using True by (simp add: fmt_02d_def del: decimal.simps)
next
  case False
  then have "decimal i = [digit_char (i div 10), digit_char (i mod 10)]"
    using assms by (intro decimal_two_digits) simp_all
  then show ?thesis using False by (simp add: fmt_02d_def del: decimal.simps)
qed

lemma map_upt_cong: "(\<And>i. i < n \<Longrightarrow> f i = g i) \<Longrightarrow> map f [0..<n] = map g [0..<n]"
  by simp

text \<open>
  Claim C6, as amended. The frame loops of the heavy-ball, link-function (constant and
  cyclical), robust-region, landscape and rate-comparison cells name frame \<open>i\<close>
  \<^verbatim>\<open><prefix>_%02d.png\<close>: the prefix, an underscore, the two decimal digits of \<open>i\<close>, and
  \<^verbatim>\<open>.png\<close>. The residual-polynomial loop puts no underscore after its prefix and numbers its
  frames with \<open>t // 2\<close>, from 01 to 09.
\<close>

theorem frame_paths:
  "frames_comparison = map (convention_name ''comparison_cyclical'') [0..<10] \<and>
   frames_link_constant = map (convention_name ''link_function_constant'') [0..<40] \<and>
   frames_link_cyclical = map (convention_name ''link_function_cyclical'') [0..<40] \<and>
   frames_robust_region = map (convention_name ''robust_region_cyclical'') [0..<60] \<and>
   frames_rate_convergence = map (convention_name ''rate_convergence_cyclical'') [0..<80] \<and>
   frames_asymptotic_rate = map (convention_name ''asymptotic_rate'') [0..<38] \<and>
   frames_residual =
     map (\<lambda>k. ''CyclicalResidualPolynomial'' @ [digit_char (Suc k div 10), digit_char (Suc k mod 10)] @ ''.png'')
       [0..<9]"
proof (intro conjI)
  show "frames_comparison = map (convention_name ''comparison_cyclical'') [0..<10]"
    unfolding frames_comparison_def
    by (rule map_upt_cong) (simp add: f_path_comparison_def convention_name_def fmt_02d_two_digits del: decimal.simps)
  show "frames_link_constant = map (convention_name ''link_function_constant'') [0..<40]"
    unfolding frames_link_constant_def
    by (simp del: decimal.simps upt_rec_numeral add: f_path_link_constant_def convention_name_def fmt_02d_two_digits)
  show "frames_link_cyclical = map (convention_name ''link_function_cyclical'') [0..<40]"
    unfolding frames_link_cyclical_def
    by (simp del: decimal.simps upt_rec_numeral add: f_path_link_cyclical_def convention_name_def fmt_02d_two_digits)
  show "frames_robust_region = map (convention_name ''robust_region_cyclical'') [0..<60]"
    unfolding frames_robust_region_def
    by (simp del: decimal.simps upt_rec_numeral add: f_path_robust_region_def convention_name_def fmt_02d_two_digits)
  show "frames_rate_convergence = map (convention_name ''rate_convergence_cyclical'') [0..<80]"
    unfolding frames_rate_convergence_def
    by (simp del: decimal.simps upt_rec_numeral add: f_path_rate_convergence_def convention_name_def fmt_02d_two_digits)
  show "frames_asymptotic_rate = map (convention_name ''asymptotic_rate'') [0..<38]"
    unfolding frames_asymptotic_rate_def
    by (simp del: decimal.simps upt_rec_numeral add: f_path_asymptotic_rate_def convention_name_def fmt_02d_two_digits)
  have "\<And>k. k < 9 \<Longrightarrow> int (2 + 2 * k) div 2 = int (Suc k)" by simp
  then show "frames_residual =
     map (\<lambda>k. ''CyclicalResidualPolynomial'' @ [digit_char (Suc k div 10), digit_char (Suc k mod 10)] @ ''.png'')
       [0..<9]"
    unfolding frames_residual_def
    by (intro map_upt_cong) (simp add: f_path_residual_def fmt_02d_two_digits del: decimal.simps of_nat_Suc)
qed

text \<open>
  The claim as stated fails on the first frame of the residual-polynomial loop, whose path has
  no underscore before the digits, whether the frame index is read as \<open>t // 2 = 1\<close> or as
  \<open>t = 2\<close>.
\<close>

theorem residual_frame_counterexample:
  "f_path_residual 2 = ''CyclicalResidualPolynomial01.png'' \<and>
   frames_residual ! 0 = f_path_residual 2 \<and>
   \<not> follows_convention (f_path_residual 2) 1 \<and>
   \<not> follows_convention (f_path_residual 2) 2"
  by (simp add: f_path_residual_def frames_residual_def fmt_02d_def follows_convention_def digit_char_def)

end
